theory Spec2Isabelle
  imports Main "HOL-Library.Word" "HOL-Library.Multiset"
begin

unbundle bit_operations_syntax

section \<open>Memory, errors and unsigned sizes\<close>

text \<open>
  The heap primitives of \<^verbatim>\<open>mmheap.h\<close> receive a base pointer \<^verbatim>\<open>int* heap_array\<close> and a
  live count. The pointer is modelled by the list of all slots that lie between the
  pointer and the end of the allocation it points into; an access past the end of that
  list is undefined behaviour in C++ and is the error \<open>OutOfBounds\<close> here. The C++
  exceptions are the other errors. Elements are C++ \<^verbatim>\<open>int\<close>s that are only copied and
  compared, never computed with, so they are HOL integers.
\<close>

datatype error =
    RuntimeError    \<comment> \<open>\<^verbatim>\<open>std::runtime_error\<close>\<close>
  | RangeError      \<comment> \<open>\<^verbatim>\<open>std::range_error\<close>\<close>
  | LengthError     \<comment> \<open>\<^verbatim>\<open>std::length_error\<close>\<close>
  | OutOfRange      \<comment> \<open>\<^verbatim>\<open>std::out_of_range\<close>\<close>
  | OutOfBounds     \<comment> \<open>a read or write outside the allocation\<close>

type_synonym 'a res = "error + 'a"

definition bindE :: "'a res \<Rightarrow> ('a \<Rightarrow> 'b res) \<Rightarrow> 'b res" where
  "bindE m f = (case m of Inl e \<Rightarrow> Inl e | Inr x \<Rightarrow> f x)"

definition rd :: "int list \<Rightarrow> nat \<Rightarrow> int res" where
  "rd h i = (if i < length h then Inr (h ! i) else Inl OutOfBounds)"

definition wr :: "int list \<Rightarrow> nat \<Rightarrow> int \<Rightarrow> int list res" where
  "wr h i v = (if i < length h then Inr (h[i := v]) else Inl OutOfBounds)"

text \<open>\<^verbatim>\<open>heap_array[i] < heap_array[j]\<close> and \<^verbatim>\<open>heap_array[i] > heap_array[j]\<close>.\<close>

definition lt :: "int list \<Rightarrow> nat \<Rightarrow> nat \<Rightarrow> bool res" where
  "lt h i j = bindE (rd h i) (\<lambda>x. bindE (rd h j) (\<lambda>y. Inr (x < y)))"

definition gt :: "int list \<Rightarrow> nat \<Rightarrow> nat \<Rightarrow> bool res" where
  "gt h i j = bindE (rd h i) (\<lambda>x. bindE (rd h j) (\<lambda>y. Inr (x > y)))"

text \<open>\<^verbatim>\<open>std::swap(heap_array[i], heap_array[j])\<close>.\<close>

definition swap :: "int list \<Rightarrow> nat \<Rightarrow> nat \<Rightarrow> int list res" where
  "swap h i j =
     bindE (rd h i) (\<lambda>x. bindE (rd h j) (\<lambda>y. bindE (wr h i y) (\<lambda>h1. wr h1 j x)))"

text \<open>
  \<^verbatim>\<open>size_t\<close> is 64 bits wide. Indices and counts are natural numbers; the one operation
  that leaves the natural numbers, a subtraction below zero, wraps around as it does
  on the machine. Sums and products of indices stay far below \<open>2 ^ 64\<close> for every
  buffer that fits in memory and are not reduced.
\<close>

definition SIZE_MAX :: nat where
  "SIZE_MAX = 2 ^ 64 - 1"

definition size_sub :: "nat \<Rightarrow> nat \<Rightarrow> nat" where
  "size_sub x y = (if y \<le> x then x - y else x + 2 ^ 64 - y)"

section \<open>Index arithmetic of \<^verbatim>\<open>mmheap.h\<close>\<close>

text \<open>
  \<^verbatim>\<open>parent\<close> and \<^verbatim>\<open>gparent\<close> assert \<open>i > 0\<close> and \<open>i > 2\<close>; every call in the source
  is behind the test \<^verbatim>\<open>has_parent\<close>, \<^verbatim>\<open>has_gparent\<close> or on a grandchild index.
\<close>

definition parent :: "nat \<Rightarrow> nat" where
  "parent i = (i - 1) div 2"

definition has_parent :: "nat \<Rightarrow> bool" where
  "has_parent i = (i > 0)"

definition left :: "nat \<Rightarrow> nat" where
  "left i = 2 * i + 1"

definition right :: "nat \<Rightarrow> nat" where
  "right i = 2 * i + 2"

definition gparent :: "nat \<Rightarrow> nat" where
  "gparent i = parent (parent i)"

definition has_gparent :: "nat \<Rightarrow> bool" where
  "has_gparent i = (i > 2)"

definition child :: "nat \<Rightarrow> nat \<Rightarrow> bool" where
  "child i c = (c = left i \<or> c = right i)"

definition tab64 :: "nat list" where
  "tab64 =
    [63,  0, 58,  1, 59, 47, 53,  2,
     60, 39, 48, 27, 54, 33, 42,  3,
     61, 51, 37, 40, 49, 18, 28, 20,
     55, 30, 34, 11, 43, 14, 22,  4,
     62, 57, 46, 52, 38, 26, 32, 41,
     50, 36, 17, 19, 29, 10, 13, 21,
     56, 45, 25, 31, 35, 16,  9, 12,
     44, 24, 15,  8, 23,  7,  6,  5]"

definition log_2 :: "64 word \<Rightarrow> nat" where
  "log_2 i0 =
     (let i1 = i0 OR drop_bit 1 i0;
          i2 = i1 OR drop_bit 2 i1;
          i3 = i2 OR drop_bit 4 i2;
          i4 = i3 OR drop_bit 8 i3;
          i5 = i4 OR drop_bit 16 i4;
          i6 = i5 OR drop_bit 32 i5
      in tab64 ! unat (drop_bit 58 ((i6 - drop_bit 1 i6) * 0x07EDD5E59A4E28C2)))"

definition min_level :: "nat \<Rightarrow> bool" where
  "min_level i = (if i > 0 then log_2 (of_nat (i + 1)) mod 2 = 0 else True)"

section \<open>Children and grandchildren\<close>

text \<open>The statement \<^verbatim>\<open>if(c <= right_index && heap_array[c] < heap_array[m]){ m = c; }\<close>
  and its mirror; the read happens only when the bound test passes.\<close>

definition take_if_lt :: "int list \<Rightarrow> nat \<Rightarrow> nat \<Rightarrow> nat \<Rightarrow> nat res" where
  "take_if_lt h r c m =
     (if c \<le> r then bindE (lt h c m) (\<lambda>b. Inr (if b then c else m)) else Inr m)"

definition take_if_gt :: "int list \<Rightarrow> nat \<Rightarrow> nat \<Rightarrow> nat \<Rightarrow> nat res" where
  "take_if_gt h r c m =
     (if c \<le> r then bindE (gt h c m) (\<lambda>b. Inr (if b then c else m)) else Inr m)"

definition min_child :: "int list \<Rightarrow> nat \<Rightarrow> nat \<Rightarrow> (bool \<times> nat) res" where
  "min_child h i r =
     (if left i \<le> r
      then bindE (take_if_lt h r (right i) (left i)) (\<lambda>m. Inr (True, m))
      else Inr (False, 0))"

definition min_gchild :: "int list \<Rightarrow> nat \<Rightarrow> nat \<Rightarrow> (bool \<times> nat) res" where
  "min_gchild h i r =
     (let l = left i; rt = right i in
      if left l \<le> r
      then bindE (take_if_lt h r (right l) (left l)) (\<lambda>m1.
           bindE (take_if_lt h r (left rt) m1) (\<lambda>m2.
           bindE (take_if_lt h r (right rt) m2) (\<lambda>m3. Inr (True, m3))))
      else Inr (False, 0))"

definition min_child_or_gchild :: "int list \<Rightarrow> nat \<Rightarrow> nat \<Rightarrow> (bool \<times> nat) res" where
  "min_child_or_gchild h i r =
     bindE (min_child h i r) (\<lambda>m.
       if fst m
       then bindE (min_gchild h i r) (\<lambda>gm.
              if fst gm
              then bindE (lt h (snd gm) (snd m)) (\<lambda>b. Inr (True, if b then snd gm else snd m))
              else Inr (True, snd m))
       else Inr m)"

definition max_child :: "int list \<Rightarrow> nat \<Rightarrow> nat \<Rightarrow> (bool \<times> nat) res" where
  "max_child h i r =
     (if left i \<le> r
      then bindE (take_if_gt h r (right i) (left i)) (\<lambda>m. Inr (True, m))
      else Inr (False, 0))"

definition max_gchild :: "int list \<Rightarrow> nat \<Rightarrow> nat \<Rightarrow> (bool \<times> nat) res" where
  "max_gchild h i r =
     (let l = left i; rt = right i in
      if left l \<le> r
      then bindE (take_if_gt h r (right l) (left l)) (\<lambda>m1.
           bindE (take_if_gt h r (left rt) m1) (\<lambda>m2.
           bindE (take_if_gt h r (right rt) m2) (\<lambda>m3. Inr (True, m3))))
      else Inr (False, 0))"

definition max_child_or_gchild :: "int list \<Rightarrow> nat \<Rightarrow> nat \<Rightarrow> (bool \<times> nat) res" where
  "max_child_or_gchild h i r =
     bindE (max_child h i r) (\<lambda>m.
       if fst m
       then bindE (max_gchild h i r) (\<lambda>gm.
              if fst gm
              then bindE (gt h (snd gm) (snd m)) (\<lambda>b. Inr (True, if b then snd gm else snd m))
              else Inr (True, snd m))
       else Inr m)"

section \<open>Sift-down and bubble-up\<close>

lemma bindE_cong [fundef_cong]:
  "m = m' \<Longrightarrow> (\<And>x. m' = Inr x \<Longrightarrow> f x = f' x) \<Longrightarrow> bindE m f = bindE m' f'"
  by (cases m') (simp_all add: bindE_def)

lemma take_if_lt_range:
  "take_if_lt h r c m = Inr k \<Longrightarrow> k = m \<or> (k = c \<and> c \<le> r)"
  by (auto simp: take_if_lt_def bindE_def split: if_splits sum.splits)

lemma take_if_gt_range:
  "take_if_gt h r c m = Inr k \<Longrightarrow> k = m \<or> (k = c \<and> c \<le> r)"
  by (auto simp: take_if_gt_def bindE_def split: if_splits sum.splits)

lemma min_child_or_gchild_above:
  assumes "min_child_or_gchild h i r = Inr fm" "left i \<le> r"
  shows "i < snd fm"
proof -
  from assms obtain m where m: "min_child h i r = Inr (True, m)"
    by (auto simp: min_child_or_gchild_def min_child_def bindE_def split: sum.splits if_splits)
  then have mi: "i < m"
    by (auto simp: min_child_def bindE_def left_def right_def
        split: if_splits sum.splits dest!: take_if_lt_range)
  show ?thesis
  proof (cases "left (left i) \<le> r")
    case False
    with assms m show ?thesis using mi
      by (auto simp: min_child_or_gchild_def min_gchild_def bindE_def Let_def split: sum.splits if_splits)
  next
    case True
    with assms m obtain g where g: "min_gchild h i r = Inr (True, g)" and fm: "snd fm = g \<or> snd fm = m"
      by (auto simp: min_child_or_gchild_def min_gchild_def bindE_def Let_def split: sum.splits if_splits)
    from g True have "i < g"
      by (auto simp: min_gchild_def bindE_def Let_def left_def right_def
          split: sum.splits dest!: take_if_lt_range)
    with fm mi show ?thesis by auto
  qed
qed

lemma max_child_or_gchild_above:
  assumes "max_child_or_gchild h i r = Inr fm" "left i \<le> r"
  shows "i < snd fm"
proof -
  from assms obtain m where m: "max_child h i r = Inr (True, m)"
    by (auto simp: max_child_or_gchild_def max_child_def bindE_def split: sum.splits if_splits)
  then have mi: "i < m"
    by (auto simp: max_child_def bindE_def left_def right_def
        split: if_splits sum.splits dest!: take_if_gt_range)
  show ?thesis
  proof (cases "left (left i) \<le> r")
    case False
    with assms m show ?thesis using mi
      by (auto simp: max_child_or_gchild_def max_gchild_def bindE_def Let_def split: sum.splits if_splits)
  next
    case True
    with assms m obtain g where g: "max_gchild h i r = Inr (True, g)" and fm: "snd fm = g \<or> snd fm = m"
      by (auto simp: max_child_or_gchild_def max_gchild_def bindE_def Let_def split: sum.splits if_splits)
    from g True have "i < g"
      by (auto simp: max_gchild_def bindE_def Let_def left_def right_def
          split: sum.splits dest!: take_if_gt_range)
    with fm mi show ?thesis by auto
  qed
qed

lemma swap_length: "swap h i j = Inr h' \<Longrightarrow> length h' = length h \<and> i < length h \<and> j < length h"
  by (auto simp: swap_def rd_def wr_def bindE_def split: if_splits)

lemma lt_in_bounds: "lt h i j = Inr b \<Longrightarrow> i < length h \<and> j < length h"
  by (auto simp: lt_def rd_def bindE_def split: if_splits)

lemma gt_in_bounds: "gt h i j = Inr b \<Longrightarrow> i < length h \<and> j < length h"
  by (auto simp: gt_def rd_def bindE_def split: if_splits)

text \<open>
  The loops of \<^verbatim>\<open>mmheap_sift_down_min\<close> and \<^verbatim>\<open>mmheap_sift_down_max\<close>: the flag
  \<^verbatim>\<open>sift_more\<close> is set exactly when the minimum (maximum) was a grandchild that was
  swapped, and that is the only path that runs the body again.
\<close>

function mmheap_sift_down_min :: "int list \<Rightarrow> nat \<Rightarrow> nat \<Rightarrow> int list res" where
  "mmheap_sift_down_min h i r =
     (if left i \<le> r then
        bindE (min_child_or_gchild h i r) (\<lambda>mp.
          if child i (snd mp) then
            bindE (lt h (snd mp) i) (\<lambda>b. if b then swap h (snd mp) i else Inr h)
          else
            bindE (lt h (snd mp) i) (\<lambda>b.
              if b then
                bindE (swap h (snd mp) i) (\<lambda>h1.
                bindE (gt h1 (snd mp) (parent (snd mp))) (\<lambda>b2.
                bindE (if b2 then swap h1 (snd mp) (parent (snd mp)) else Inr h1) (\<lambda>h2.
                  mmheap_sift_down_min h2 (snd mp) r)))
              else Inr h))
      else Inr h)"
  by pat_completeness auto
termination
proof (relation "measure (\<lambda>(h, i, r). length h - i)", goal_cases)
  case 1
  show ?case by simp
next
  case (2 h i r mp b h1 b2 h2)
  from 2(2,1) have "i < snd mp" by (rule min_child_or_gchild_above)
  moreover from 2(6) have "length h1 = length h" "snd mp < length h"
    by (auto dest: swap_length)
  moreover from 2(8) have "length h2 = length h1"
    by (auto dest: swap_length split: if_splits)
  ultimately show ?case by simp
qed

function mmheap_sift_down_max :: "int list \<Rightarrow> nat \<Rightarrow> nat \<Rightarrow> int list res" where
  "mmheap_sift_down_max h i r =
     (if left i \<le> r then
        bindE (max_child_or_gchild h i r) (\<lambda>mp.
          if child i (snd mp) then
            bindE (gt h (snd mp) i) (\<lambda>b. if b then swap h (snd mp) i else Inr h)
          else
            bindE (gt h (snd mp) i) (\<lambda>b.
              if b then
                bindE (swap h (snd mp) i) (\<lambda>h1.
                bindE (lt h1 (snd mp) (parent (snd mp))) (\<lambda>b2.
                bindE (if b2 then swap h1 (snd mp) (parent (snd mp)) else Inr h1) (\<lambda>h2.
                  mmheap_sift_down_max h2 (snd mp) r)))
              else Inr h))
      else Inr h)"
  by pat_completeness auto
termination
proof (relation "measure (\<lambda>(h, i, r). length h - i)", goal_cases)
  case 1
  show ?case by simp
next
  case (2 h i r mp b h1 b2 h2)
  from 2(2,1) have "i < snd mp" by (rule max_child_or_gchild_above)
  moreover from 2(6) have "length h1 = length h" "snd mp < length h"
    by (auto dest: swap_length)
  moreover from 2(8) have "length h2 = length h1"
    by (auto dest: swap_length split: if_splits)
  ultimately show ?case by simp
qed

declare mmheap_sift_down_min.simps [simp del] mmheap_sift_down_max.simps [simp del]

definition mmheap_sift_down :: "int list \<Rightarrow> nat \<Rightarrow> nat \<Rightarrow> int list res" where
  "mmheap_sift_down h i r =
     (if min_level i then mmheap_sift_down_min h i r else mmheap_sift_down_max h i r)"

text \<open>
  \<^verbatim>\<open>bubble_up_max\<close> and \<^verbatim>\<open>bubble_up\<close> take the index as a C++ \<^verbatim>\<open>int\<close>; the model
  passes the index on unchanged, which is what the code does for every index below
  \<open>2 ^ 31\<close>. Buffers of \<open>2 ^ 31\<close> or more elements are outside the model.
\<close>

function bubble_up_min :: "int list \<Rightarrow> nat \<Rightarrow> int list res" where
  "bubble_up_min h i =
     (if has_gparent i then
        bindE (lt h i (gparent i)) (\<lambda>b.
          if b then bindE (swap h i (gparent i)) (\<lambda>h1. bubble_up_min h1 (gparent i))
          else Inr h)
      else Inr h)"
  by pat_completeness auto
termination
  by (relation "measure (\<lambda>(h, i). i)")
     (auto simp: has_gparent_def gparent_def parent_def)

function bubble_up_max :: "int list \<Rightarrow> nat \<Rightarrow> int list res" where
  "bubble_up_max h i =
     (if has_gparent i then
        bindE (gt h i (gparent i)) (\<lambda>b.
          if b then bindE (swap h i (gparent i)) (\<lambda>h1. bubble_up_max h1 (gparent i))
          else Inr h)
      else Inr h)"
  by pat_completeness auto
termination
  by (relation "measure (\<lambda>(h, i). i)")
     (auto simp: has_gparent_def gparent_def parent_def)

declare bubble_up_min.simps [simp del] bubble_up_max.simps [simp del]

definition bubble_up :: "int list \<Rightarrow> nat \<Rightarrow> int list res" where
  "bubble_up h i =
     (if min_level i then
        bindE (if has_parent i then gt h i (parent i) else Inr False) (\<lambda>b.
          if b then bindE (swap h i (parent i)) (\<lambda>h1. bubble_up_max h1 (parent i))
          else bubble_up_min h i)
      else
        bindE (if has_parent i then lt h i (parent i) else Inr False) (\<lambda>b.
          if b then bindE (swap h i (parent i)) (\<lambda>h1. bubble_up_min h1 (parent i))
          else bubble_up_max h i))"

section \<open>The heap operations of \<^verbatim>\<open>mmheap.h\<close>\<close>

text \<open>\<^verbatim>\<open>make_mm_heap\<close>: the loop counts \<^verbatim>\<open>current\<close> down from \<^verbatim>\<open>parent(size-1)\<close> to 0.\<close>

fun make_mm_heap_from :: "int list \<Rightarrow> nat \<Rightarrow> nat \<Rightarrow> int list res" where
  "make_mm_heap_from h 0 r = mmheap_sift_down h 0 r"
| "make_mm_heap_from h (Suc c) r =
     bindE (mmheap_sift_down h (Suc c) r) (\<lambda>h1. make_mm_heap_from h1 c r)"

definition make_mm_heap :: "int list \<Rightarrow> nat \<Rightarrow> int list res" where
  "make_mm_heap h n = (if n > 1 then make_mm_heap_from h (parent (n - 1)) (n - 1) else Inr h)"

text \<open>
  The operations that update \<^verbatim>\<open>size_t& count\<close> return the new count beside the buffer.
\<close>

definition mm_heap_add :: "int \<Rightarrow> int list \<Rightarrow> nat \<Rightarrow> nat \<Rightarrow> (int list \<times> nat) res" where
  "mm_heap_add v h n max_size =
     (if n < max_size then
        bindE (wr h n v) (\<lambda>h1.
        bindE (bubble_up h1 n) (\<lambda>h2. Inr (h2, n + 1)))
      else Inl RuntimeError)"

definition mm_heap_max :: "int list \<Rightarrow> nat \<Rightarrow> int res" where
  "mm_heap_max h n =
     (if n < 1 then Inl RuntimeError
      else bindE (max_child h 0 (n - 1)) (\<lambda>m. if fst m then rd h (snd m) else rd h 0))"

definition mm_heap_min :: "int list \<Rightarrow> nat \<Rightarrow> int res" where
  "mm_heap_min h n = (if n < 1 then Inl RuntimeError else rd h 0)"

text \<open>
  \<^verbatim>\<open>mm_heap_ripple_add\<close> returns the pair (overflow flag, shifted-out value) of the source,
  then the buffer and the count.
\<close>

definition mm_heap_ripple_add ::
    "int \<Rightarrow> int list \<Rightarrow> nat \<Rightarrow> nat \<Rightarrow> ((bool \<times> int) \<times> int list \<times> nat) res" where
  "mm_heap_ripple_add v h n max_size =
     (if n \<noteq> max_size then
        bindE (mm_heap_add v h n max_size) (\<lambda>hc. Inr ((False, 0), hc))
      else
        bindE (if max_size > 1
               then bindE (max_child h 0 (max_size - 1)) (\<lambda>m. Inr (snd m))
               else Inr 0) (\<lambda>m.
        bindE (rd h m) (\<lambda>max_value.
        bindE (wr h m v) (\<lambda>h1.
          if max_size > 1 then
            bindE (rd h1 0) (\<lambda>root.
            bindE (if v < root then swap h1 0 m else Inr h1) (\<lambda>h2.
            bindE (mmheap_sift_down h2 m (max_size - 1)) (\<lambda>h3.
              Inr ((True, max_value), h3, n))))
          else Inr ((True, max_value), h1, n)))))"

definition mm_heap_replace_at_index :: "int \<Rightarrow> nat \<Rightarrow> int list \<Rightarrow> nat \<Rightarrow> (int \<times> int list) res" where
  "mm_heap_replace_at_index new_value index h n =
     (if n = 0 then Inl RuntimeError
      else if index > n then Inl RangeError
      else
        bindE (rd h index) (\<lambda>old_value.
        bindE (wr h index new_value) (\<lambda>h1.
        bindE
          (if min_level index then
             (if new_value < old_value then bubble_up_min h1 index
              else
                bindE (if has_parent index
                       then bindE (rd h1 (parent index)) (\<lambda>p. Inr (p < new_value))
                       else Inr False) (\<lambda>b.
                bindE (if b then swap h1 (parent index) index else Inr h1) (\<lambda>h2.
                  mmheap_sift_down_min h2 index (size_sub n 1))))
           else
             (if new_value > old_value then bubble_up_max h1 index
              else
                bindE (if has_parent index
                       then bindE (rd h1 (parent index)) (\<lambda>p. Inr (new_value < p))
                       else Inr False) (\<lambda>b.
                bindE (if b then swap h1 (parent index) index else Inr h1) (\<lambda>h2.
                  mmheap_sift_down_max h2 index (size_sub n 1)))))
          (\<lambda>h3. Inr (old_value, h3)))))"

definition mm_heap_remove_at_index :: "nat \<Rightarrow> int list \<Rightarrow> nat \<Rightarrow> (int \<times> int list \<times> nat) res" where
  "mm_heap_remove_at_index index h n =
     (if n = 0 then Inl RuntimeError
      else if index > n then Inl RangeError
      else
        bindE (rd h (size_sub n 1)) (\<lambda>last.
        bindE (mm_heap_replace_at_index last index h n) (\<lambda>oh.
          Inr (fst oh, snd oh, size_sub n 1))))"

definition mm_heap_remove_min :: "int list \<Rightarrow> nat \<Rightarrow> (int \<times> int list \<times> nat) res" where
  "mm_heap_remove_min h n =
     (if n = 0 then Inl RuntimeError
      else
        bindE (rd h 0) (\<lambda>v.
        bindE (swap h 0 (size_sub n 1)) (\<lambda>h1.
        bindE (mmheap_sift_down h1 0 (size_sub (size_sub n 1) 1)) (\<lambda>h2.
          Inr (v, h2, size_sub n 1)))))"

text \<open>
  \<^verbatim>\<open>mm_heap_remove_max\<close>: \<^verbatim>\<open>value = m.second\<close> stores the index of the larger child
  in the \<^verbatim>\<open>int\<close> that is returned; the result of \<^verbatim>\<open>mm_heap_remove_at_index\<close> is dropped.
\<close>

definition mm_heap_remove_max :: "int list \<Rightarrow> nat \<Rightarrow> (int \<times> int list \<times> nat) res" where
  "mm_heap_remove_max h n =
     (if n = 0 then Inl RuntimeError
      else
        bindE (rd h 0) (\<lambda>v0.
        bindE (max_child h 0 (size_sub n 1)) (\<lambda>m.
        bindE (mm_heap_remove_at_index (if fst m then snd m else 0) h n) (\<lambda>r.
          Inr (if fst m then int (snd m) else v0, snd r)))))"

section \<open>Buffer lengths are preserved\<close>

lemma bindE_Inr_iff: "bindE m f = Inr y \<longleftrightarrow> (\<exists>x. m = Inr x \<and> f x = Inr y)"
  by (cases m) (simp_all add: bindE_def)

lemma wr_length: "wr h i v = Inr h' \<Longrightarrow> length h' = length h \<and> i < length h"
  by (auto simp: wr_def split: if_splits)

lemma rd_in_bounds: "rd h i = Inr x \<Longrightarrow> i < length h"
  by (auto simp: rd_def split: if_splits)

lemma sift_down_min_length: "mmheap_sift_down_min h i r = Inr h' \<Longrightarrow> length h' = length h"
proof (induction h i r rule: mmheap_sift_down_min.induct)
  case (1 h i r)
  show ?case
  proof (cases "left i \<le> r")
    case False
    with "1.prems" show ?thesis by (subst (asm) mmheap_sift_down_min.simps) simp
  next
    case True
    with "1.prems" obtain mp where mp: "min_child_or_gchild h i r = Inr mp"
      by (subst (asm) mmheap_sift_down_min.simps) (auto simp: bindE_Inr_iff)
    show ?thesis
    proof (cases "child i (snd mp)")
      case True
      with "1.prems" \<open>left i \<le> r\<close> mp show ?thesis
        by (subst (asm) mmheap_sift_down_min.simps)
           (auto simp: bindE_Inr_iff split: if_splits dest!: swap_length)
    next
      case False
      with "1.prems" \<open>left i \<le> r\<close> mp obtain b where b: "lt h (snd mp) i = Inr b"
        by (subst (asm) mmheap_sift_down_min.simps) (auto simp: bindE_Inr_iff)
      show ?thesis
      proof (cases b)
        case False
        with "1.prems" \<open>left i \<le> r\<close> mp \<open>\<not> child i (snd mp)\<close> b show ?thesis
          by (subst (asm) mmheap_sift_down_min.simps) (auto simp: bindE_Inr_iff)
      next
        case True
        with "1.prems" \<open>left i \<le> r\<close> mp \<open>\<not> child i (snd mp)\<close> b
        obtain h1 b2 h2 where s: "swap h (snd mp) i = Inr h1"
          "gt h1 (snd mp) (parent (snd mp)) = Inr b2"
          "(if b2 then swap h1 (snd mp) (parent (snd mp)) else Inr h1) = Inr h2"
          "mmheap_sift_down_min h2 (snd mp) r = Inr h'"
          by (subst (asm) mmheap_sift_down_min.simps) (auto simp: bindE_Inr_iff)
        from "1.IH"[OF \<open>left i \<le> r\<close> mp \<open>\<not> child i (snd mp)\<close> b True s]
        have "length h' = length h2" .
        moreover from s(3) have "length h2 = length h1"
          by (auto split: if_splits dest: swap_length)
        moreover from s(1) have "length h1 = length h" by (auto dest: swap_length)
        ultimately show ?thesis by simp
      qed
    qed
  qed
qed

lemma sift_down_max_length: "mmheap_sift_down_max h i r = Inr h' \<Longrightarrow> length h' = length h"
proof (induction h i r rule: mmheap_sift_down_max.induct)
  case (1 h i r)
  show ?case
  proof (cases "left i \<le> r")
    case False
    with "1.prems" show ?thesis by (subst (asm) mmheap_sift_down_max.simps) simp
  next
    case True
    with "1.prems" obtain mp where mp: "max_child_or_gchild h i r = Inr mp"
      by (subst (asm) mmheap_sift_down_max.simps) (auto simp: bindE_Inr_iff)
    show ?thesis
    proof (cases "child i (snd mp)")
      case True
      with "1.prems" \<open>left i \<le> r\<close> mp show ?thesis
        by (subst (asm) mmheap_sift_down_max.simps)
           (auto simp: bindE_Inr_iff split: if_splits dest!: swap_length)
    next
      case False
      with "1.prems" \<open>left i \<le> r\<close> mp obtain b where b: "gt h (snd mp) i = Inr b"
        by (subst (asm) mmheap_sift_down_max.simps) (auto simp: bindE_Inr_iff)
      show ?thesis
      proof (cases b)
        case False
        with "1.prems" \<open>left i \<le> r\<close> mp \<open>\<not> child i (snd mp)\<close> b show ?thesis
          by (subst (asm) mmheap_sift_down_max.simps) (auto simp: bindE_Inr_iff)
      next
        case True
        with "1.prems" \<open>left i \<le> r\<close> mp \<open>\<not> child i (snd mp)\<close> b
        obtain h1 b2 h2 where s: "swap h (snd mp) i = Inr h1"
          "lt h1 (snd mp) (parent (snd mp)) = Inr b2"
          "(if b2 then swap h1 (snd mp) (parent (snd mp)) else Inr h1) = Inr h2"
          "mmheap_sift_down_max h2 (snd mp) r = Inr h'"
          by (subst (asm) mmheap_sift_down_max.simps) (auto simp: bindE_Inr_iff)
        from "1.IH"[OF \<open>left i \<le> r\<close> mp \<open>\<not> child i (snd mp)\<close> b True s]
        have "length h' = length h2" .
        moreover from s(3) have "length h2 = length h1"
          by (auto split: if_splits dest: swap_length)
        moreover from s(1) have "length h1 = length h" by (auto dest: swap_length)
        ultimately show ?thesis by simp
      qed
    qed
  qed
qed

lemma sift_down_length: "mmheap_sift_down h i r = Inr h' \<Longrightarrow> length h' = length h"
  by (auto simp: mmheap_sift_down_def split: if_splits
      dest: sift_down_min_length sift_down_max_length)

lemma bubble_up_min_length: "bubble_up_min h i = Inr h' \<Longrightarrow> length h' = length h"
proof (induction h i rule: bubble_up_min.induct)
  case (1 h i)
  show ?case
  proof (cases "has_gparent i")
    case False
    with "1.prems" show ?thesis by (subst (asm) bubble_up_min.simps) simp
  next
    case True
    with "1.prems" obtain b where b: "lt h i (gparent i) = Inr b"
      by (subst (asm) bubble_up_min.simps) (auto simp: bindE_Inr_iff)
    show ?thesis
    proof (cases b)
      case False
      with "1.prems" True b show ?thesis
        by (subst (asm) bubble_up_min.simps) (auto simp: bindE_Inr_iff)
    next
      case bt: True
      with "1.prems" True b obtain h1 where s: "swap h i (gparent i) = Inr h1"
        "bubble_up_min h1 (gparent i) = Inr h'"
        by (subst (asm) bubble_up_min.simps) (auto simp: bindE_Inr_iff)
      from "1.IH"[OF True b bt s] s(1) show ?thesis by (auto dest: swap_length)
    qed
  qed
qed

lemma bubble_up_max_length: "bubble_up_max h i = Inr h' \<Longrightarrow> length h' = length h"
proof (induction h i rule: bubble_up_max.induct)
  case (1 h i)
  show ?case
  proof (cases "has_gparent i")
    case False
    with "1.prems" show ?thesis by (subst (asm) bubble_up_max.simps) simp
  next
    case True
    with "1.prems" obtain b where b: "gt h i (gparent i) = Inr b"
      by (subst (asm) bubble_up_max.simps) (auto simp: bindE_Inr_iff)
    show ?thesis
    proof (cases b)
      case False
      with "1.prems" True b show ?thesis
        by (subst (asm) bubble_up_max.simps) (auto simp: bindE_Inr_iff)
    next
      case bt: True
      with "1.prems" True b obtain h1 where s: "swap h i (gparent i) = Inr h1"
        "bubble_up_max h1 (gparent i) = Inr h'"
        by (subst (asm) bubble_up_max.simps) (auto simp: bindE_Inr_iff)
      from "1.IH"[OF True b bt s] s(1) show ?thesis by (auto dest: swap_length)
    qed
  qed
qed

lemma bubble_up_length: "bubble_up h i = Inr h' \<Longrightarrow> length h' = length h"
  unfolding bubble_up_def
  by (auto simp: bindE_Inr_iff split: if_splits
      dest!: swap_length bubble_up_min_length bubble_up_max_length)

lemma mm_heap_add_length: "mm_heap_add v h n c = Inr hc \<Longrightarrow> length (fst hc) = length h"
  unfolding mm_heap_add_def
  by (auto simp: bindE_Inr_iff split: if_splits dest!: wr_length bubble_up_length)

lemma mm_heap_ripple_add_length:
  "mm_heap_ripple_add v h n c = Inr r \<Longrightarrow> length (fst (snd r)) = length h"
  unfolding mm_heap_ripple_add_def
  by (auto simp: bindE_Inr_iff split: if_splits
      dest!: wr_length swap_length mm_heap_add_length sift_down_length)

lemma mm_heap_ripple_add_nonempty:
  "mm_heap_ripple_add v h n c = Inr r \<Longrightarrow> fst (fst r) \<Longrightarrow> h \<noteq> []"
  unfolding mm_heap_ripple_add_def
  by (auto simp: bindE_Inr_iff rd_def split: if_splits)

lemma mm_heap_replace_at_index_length:
  "mm_heap_replace_at_index v i h n = Inr r \<Longrightarrow> length (snd r) = length h"
  unfolding mm_heap_replace_at_index_def
  by (auto simp: bindE_Inr_iff split: if_splits
      dest!: wr_length swap_length sift_down_min_length sift_down_max_length
        bubble_up_min_length bubble_up_max_length)

section \<open>The container of \<^verbatim>\<open>heaparray.h\<close>\<close>

text \<open>
  \<^verbatim>\<open>heaparray.h\<close> calls the heap primitives under the names \<^verbatim>\<open>heap_insert_circular\<close>,
  \<^verbatim>\<open>heap_max\<close>, \<^verbatim>\<open>heap_remove_min\<close>, \<^verbatim>\<open>heap_replace_at_index\<close>,
  \<^verbatim>\<open>heap_remove_at_index\<close> and \<^verbatim>\<open>make_heap\<close>; they are the functions
  \<^verbatim>\<open>mm_heap_ripple_add\<close>, \<^verbatim>\<open>mm_heap_max\<close>, \<^verbatim>\<open>mm_heap_remove_min\<close>,
  \<^verbatim>\<open>mm_heap_replace_at_index\<close>, \<^verbatim>\<open>mm_heap_remove_at_index\<close> and \<^verbatim>\<open>make_mm_heap\<close> of
  \<^verbatim>\<open>mmheap.h\<close>, under which names the other copy of the same container calls them,
  statement for statement.

  The buffer \<^verbatim>\<open>a\<close> is the list of its \<^verbatim>\<open>storage\<close> slots; the null pointer is the empty
  list (a null buffer always goes with \<open>count = 0\<close>, so nothing is ever read from it).
  \<^verbatim>\<open>new int[n]\<close> leaves the slots uninitialised: every operation that allocates takes
  the contents \<open>junk\<close> that the fresh slots happen to hold. The partition \<open>p\<close> is
  handed to the heap primitives as the pointer \<^verbatim>\<open>a + p*p\<close>, that is the buffer from
  slot \<open>p * p\<close> on.
\<close>

record HeapArray =
  storage :: nat
  count :: nat
  fixed :: bool
  a :: "int list"

definition MIN_HEAPARRAY_ALLOCATION :: nat where
  "MIN_HEAPARRAY_ALLOCATION = 4"

definition new_array :: "(nat \<Rightarrow> int) \<Rightarrow> nat \<Rightarrow> int list" where
  "new_array junk n = map junk [0..<n]"

text \<open>\<^verbatim>\<open>static_cast<size_t>(ceil(sqrt(n)))\<close>: the least \<open>k\<close> with \<open>n \<le> k * k\<close>
  (the computation in \<^verbatim>\<open>double\<close> gives exactly this number for every \<open>n\<close> below \<open>2 ^ 52\<close>).\<close>

function ceil_sqrt_from :: "nat \<Rightarrow> nat \<Rightarrow> nat" where
  "ceil_sqrt_from n k = (if n \<le> k * k then k else ceil_sqrt_from n (Suc k))"
  by pat_completeness auto
termination
  by (relation "measure (\<lambda>(n, k). n - k * k)") auto

declare ceil_sqrt_from.simps [simp del]

definition ceil_sqrt :: "nat \<Rightarrow> nat" where
  "ceil_sqrt n = ceil_sqrt_from n 0"

subsection \<open>Construction, copy and move\<close>

definition HeapArray_default :: HeapArray where
  "HeapArray_default = \<lparr>storage = 0, count = 0, fixed = False, a = []\<rparr>"

text \<open>\<^verbatim>\<open>HeapArray(int reserve_size, bool allow_resize)\<close>, for a size that is not negative.\<close>

definition HeapArray_reserve :: "(nat \<Rightarrow> int) \<Rightarrow> nat \<Rightarrow> bool \<Rightarrow> HeapArray" where
  "HeapArray_reserve junk reserve_size allow_resize =
     \<lparr>storage = reserve_size, count = 0, fixed = \<not> allow_resize,
      a = new_array junk reserve_size\<rparr>"

definition copy_assign :: "(nat \<Rightarrow> int) \<Rightarrow> HeapArray \<Rightarrow> HeapArray res" where
  "copy_assign junk rhs =
     (if count rhs \<le> length (a rhs) \<and> count rhs \<le> storage rhs
      then Inr \<lparr>storage = storage rhs, count = count rhs, fixed = fixed rhs,
                a = take (count rhs) (a rhs) @ drop (count rhs) (new_array junk (storage rhs))\<rparr>
      else Inl OutOfBounds)"

text \<open>Move assignment returns the target and the emptied source.\<close>

definition move_assign :: "HeapArray \<Rightarrow> HeapArray \<times> HeapArray" where
  "move_assign rhs =
     (\<lparr>storage = storage rhs, count = count rhs, fixed = fixed rhs, a = a rhs\<rparr>,
      \<lparr>storage = 0, count = 0, fixed = False, a = []\<rparr>)"

subsection \<open>Partition geometry\<close>

definition final_partition :: "HeapArray \<Rightarrow> nat" where
  "final_partition h = (if count h > 0 then ceil_sqrt (count h) - 1 else 0)"

definition partition_size :: "nat \<Rightarrow> nat" where
  "partition_size p = p * 2 + 1"

definition partition_start :: "nat \<Rightarrow> nat" where
  "partition_start p = p * p"

definition partition_end :: "nat \<Rightarrow> nat" where
  "partition_end p = p * p + p * 2"

definition count_in_partition :: "HeapArray \<Rightarrow> nat \<Rightarrow> nat" where
  "count_in_partition h p =
     (if p \<ge> final_partition h then size_sub (count h) (p * p) else partition_size p)"

text \<open>The pointer \<^verbatim>\<open>a + _partition_start(p)\<close> and the buffer after a primitive has worked on it.\<close>

definition part_ptr :: "HeapArray \<Rightarrow> nat \<Rightarrow> int list" where
  "part_ptr h p = drop (partition_start p) (a h)"

definition part_store :: "HeapArray \<Rightarrow> nat \<Rightarrow> int list \<Rightarrow> HeapArray" where
  "part_store h p h' = h\<lparr>a := take (partition_start p) (a h) @ h'\<rparr>"

definition range_in_partition :: "HeapArray \<Rightarrow> nat \<Rightarrow> (int \<times> int) res" where
  "range_in_partition h p =
     bindE (rd (a h) (partition_start p)) (\<lambda>p_min.
     bindE (mm_heap_max (part_ptr h p) (count_in_partition h p)) (\<lambda>p_max.
       Inr (p_min, p_max)))"

definition max_in_partition :: "HeapArray \<Rightarrow> nat \<Rightarrow> int res" where
  "max_in_partition h p = mm_heap_max (part_ptr h p) (count_in_partition h p)"

subsection \<open>Resizing\<close>

text \<open>\<^verbatim>\<open>_grow\<close> keeps the doubled size in a C++ \<^verbatim>\<open>int\<close>; the model is that of a buffer
  of fewer than \<open>2 ^ 30\<close> slots, where the \<^verbatim>\<open>int\<close> holds it.\<close>

definition resize :: "(nat \<Rightarrow> int) \<Rightarrow> nat \<Rightarrow> bool \<Rightarrow> HeapArray \<Rightarrow> HeapArray res" where
  "resize junk new_size round_up h =
     (if fixed h then Inl RuntimeError
      else if new_size > 0 then
        (let n = (if round_up then ceil_sqrt new_size * ceil_sqrt new_size else new_size);
             k = min (count h) n
         in if k \<le> length (a h)
            then Inr (h\<lparr>a := take k (a h) @ drop k (new_array junk n), storage := n\<rparr>)
            else Inl OutOfBounds)
      else Inr (h\<lparr>count := 0, storage := 0, a := []\<rparr>))"

definition grow :: "(nat \<Rightarrow> int) \<Rightarrow> HeapArray \<Rightarrow> HeapArray res" where
  "grow junk h =
     (let next_size = storage h * 2
      in resize junk (if next_size = 0 then MIN_HEAPARRAY_ALLOCATION else next_size) True h)"

subsection \<open>Searching\<close>

text \<open>
  The loop of \<^verbatim>\<open>_find_partition\<close>. \<^verbatim>\<open>p_index\<close> is written only together with
  \<^verbatim>\<open>finished = true\<close>, so the loop returns the matching \<^verbatim>\<open>mid\<close>, or 0 when it runs out
  of partitions or stops at \<^verbatim>\<open>mid == 0\<close>. The tests are evaluated left to right and
  only as far as C++ evaluates them.
\<close>

function find_partition_loop :: "HeapArray \<Rightarrow> int \<Rightarrow> bool \<Rightarrow> nat \<Rightarrow> nat \<Rightarrow> nat res" where
  "find_partition_loop h v for_insert l r =
     (if l \<le> r then
        bindE (range_in_partition h ((l + r) div 2)) (\<lambda>rg.
        bindE (if fst rg \<le> v \<and> v \<le> snd rg then Inr True
               else if for_insert then
                 bindE (if (l + r) div 2 > 0 \<and> v \<le> snd rg
                        then bindE (max_in_partition h ((l + r) div 2 - 1)) (\<lambda>m. Inr (m \<le> v))
                        else Inr False) (\<lambda>follows.
                   Inr (follows \<or> ((l + r) div 2 = 0 \<and> v \<le> snd rg)
                        \<or> ((l + r) div 2 = final_partition h \<and> fst rg \<le> v)))
               else Inr False) (\<lambda>hit.
          if hit then Inr ((l + r) div 2)
          else if snd rg < v then find_partition_loop h v for_insert ((l + r) div 2 + 1) r
          else if (l + r) div 2 = 0 then Inr 0
          else find_partition_loop h v for_insert l ((l + r) div 2 - 1)))
      else Inr 0)"
  by pat_completeness auto
termination
  by (relation "measure (\<lambda>(h, v, f, l, r). Suc r - l)") auto

declare find_partition_loop.simps [simp del]

definition find_partition :: "HeapArray \<Rightarrow> int \<Rightarrow> bool \<Rightarrow> nat res" where
  "find_partition h v for_insert =
     (if count h > 0 then find_partition_loop h v for_insert 0 (final_partition h) else Inr 0)"

text \<open>The scan of \<^verbatim>\<open>_find\<close>: \<^verbatim>\<open>for(i = start; !found && i <= end; ++i)\<close>; the index stays 0
  when nothing is found.\<close>

function find_scan :: "int list \<Rightarrow> int \<Rightarrow> nat \<Rightarrow> nat \<Rightarrow> (bool \<times> nat) res" where
  "find_scan buf v i e =
     (if i \<le> e then
        bindE (rd buf i) (\<lambda>x. if x = v then Inr (True, i) else find_scan buf v (i + 1) e)
      else Inr (False, 0))"
  by pat_completeness auto
termination
  by (relation "measure (\<lambda>(buf, v, i, e). Suc e - i)") auto

declare find_scan.simps [simp del]

text \<open>\<^verbatim>\<open>_find\<close>: (found, index, partition, index in the partition).\<close>

definition find_info :: "HeapArray \<Rightarrow> int \<Rightarrow> (bool \<times> nat \<times> nat \<times> nat) res" where
  "find_info h v =
     bindE (find_partition h v False) (\<lambda>p.
     bindE (if count h > 0
            then find_scan (a h) v (partition_start p) (partition_end p)
            else Inr (False, 0)) (\<lambda>fi.
       Inr (fst fi, snd fi, p, size_sub (snd fi) (partition_start p))))"

definition find_ha :: "HeapArray \<Rightarrow> int \<Rightarrow> (bool \<times> nat) res" where
  "find_ha h v = bindE (find_info h v) (\<lambda>t. Inr (fst t, fst (snd t)))"

definition contains :: "HeapArray \<Rightarrow> int \<Rightarrow> bool res" where
  "contains h v = (if count h > 0 then bindE (find_ha h v) (\<lambda>r. Inr (fst r)) else Inr False)"

subsection \<open>Reading\<close>

definition size_ha :: "HeapArray \<Rightarrow> nat" where
  "size_ha h = count h"

definition subscript :: "HeapArray \<Rightarrow> nat \<Rightarrow> int res" where
  "subscript h index = (if index \<ge> count h then Inl OutOfRange else rd (a h) index)"

definition min_ha :: "HeapArray \<Rightarrow> int res" where
  "min_ha h = rd (a h) 0"

definition max_ha :: "HeapArray \<Rightarrow> int res" where
  "max_ha h =
     mm_heap_max (part_ptr h (final_partition h)) (count_in_partition h (final_partition h))"

subsection \<open>Insertion\<close>

lemma part_store_fields [simp]:
  "count (part_store h p h') = count h" "storage (part_store h p h') = storage h"
  "fixed (part_store h p h') = fixed h"
  "a (part_store h p h') = take (partition_start p) (a h) @ h'"
  by (simp_all add: part_store_def)

lemma final_partition_part_store [simp]:
  "final_partition (part_store h p h') = final_partition h"
  by (simp add: final_partition_def)

text \<open>
  The \<^verbatim>\<open>do ... while(!done)\<close> loop of \<^verbatim>\<open>insert\<close>: add the value to the partition and
  carry what it shifts out to the next one. The count that \<^verbatim>\<open>heap_insert_circular\<close>
  updates is the local copy \<^verbatim>\<open>p_count\<close>, which the loop forgets.
\<close>

function insert_ripple :: "HeapArray \<Rightarrow> int \<Rightarrow> nat \<Rightarrow> HeapArray res" where
  "insert_ripple h v p =
     bindE (mm_heap_ripple_add v (part_ptr h p) (count_in_partition h p) (partition_size p))
       (\<lambda>ripple.
          if fst (fst ripple)
          then insert_ripple (part_store h p (fst (snd ripple))) (snd (fst ripple)) (p + 1)
          else Inr (part_store h p (fst (snd ripple))))"
  by pat_completeness auto
termination
proof (relation "measure (\<lambda>(h, v, p). length (a h) - p * p)", goal_cases)
  case 1
  show ?case by simp
next
  case (2 h v p ripple)
  from 2 have ne: "part_ptr h p \<noteq> []"
    by (auto dest: mm_heap_ripple_add_nonempty)
  then have lt: "p * p < length (a h)"
    by (simp add: part_ptr_def partition_start_def)
  from 2 have "length (fst (snd ripple)) = length (part_ptr h p)"
    by (auto dest: mm_heap_ripple_add_length)
  with lt have "length (a (part_store h p (fst (snd ripple)))) = length (a h)"
    by (simp add: part_ptr_def partition_start_def)
  with lt show ?case by simp
qed

declare insert_ripple.simps [simp del]

definition insert_ha :: "(nat \<Rightarrow> int) \<Rightarrow> int \<Rightarrow> HeapArray \<Rightarrow> HeapArray res" where
  "insert_ha junk v h =
     bindE (if count h = storage h
            then (if fixed h then Inl LengthError else grow junk h)
            else Inr h) (\<lambda>h1.
     bindE (find_partition h1 v True) (\<lambda>p.
     bindE (insert_ripple h1 v p) (\<lambda>h2.
       Inr (h2\<lparr>count := count h2 + 1\<rparr>))))"

subsection \<open>The container when \<^verbatim>\<open>insert\<close> throws\<close>

text \<open>
  \<^verbatim>\<open>insert\<close> works on the object in place, so an exception that leaves it leaves the
  container as the statements before the \<^verbatim>\<open>throw\<close> made it. \<open>outcome\<close> keeps that
  container: \<open>Returns\<close> is the normal return, \<open>Throws\<close> a C++ exception with the
  container at the \<^verbatim>\<open>throw\<close>, \<open>Undefined\<close> an access outside the allocation, after
  which C++ defines no state. Every \<^verbatim>\<open>throw\<close> that \<^verbatim>\<open>insert\<close> can reach is the first
  test of its function: \<^verbatim>\<open>insert\<close> itself throws before it writes, \<^verbatim>\<open>_resize\<close> tests
  \<^verbatim>\<open>fixed\<close> before it allocates, \<^verbatim>\<open>_find_partition\<close> and the functions it calls are
  \<^verbatim>\<open>const\<close>, and \<^verbatim>\<open>mm_heap_add\<close> tests the count before it writes. So the container at
  an exception of one of these calls is the container the call was made on.
\<close>

datatype outcome = Returns HeapArray | Throws error HeapArray | Undefined

definition raised :: "error \<Rightarrow> HeapArray \<Rightarrow> outcome" where
  "raised e h = (if e = OutOfBounds then Undefined else Throws e h)"

function insert_ripple_outcome :: "HeapArray \<Rightarrow> int \<Rightarrow> nat \<Rightarrow> outcome" where
  "insert_ripple_outcome h v p =
     (case mm_heap_ripple_add v (part_ptr h p) (count_in_partition h p) (partition_size p) of
        Inl e \<Rightarrow> raised e h
      | Inr ripple \<Rightarrow>
          if fst (fst ripple)
          then insert_ripple_outcome (part_store h p (fst (snd ripple))) (snd (fst ripple)) (p + 1)
          else Returns (part_store h p (fst (snd ripple))))"
  by pat_completeness auto
termination
proof (relation "measure (\<lambda>(h, v, p). length (a h) - p * p)", goal_cases)
  case 1
  show ?case by simp
next
  case (2 h v p ripple)
  from 2 have ne: "part_ptr h p \<noteq> []"
    by (auto dest: mm_heap_ripple_add_nonempty)
  then have lt: "p * p < length (a h)"
    by (simp add: part_ptr_def partition_start_def)
  from 2 have "length (fst (snd ripple)) = length (part_ptr h p)"
    by (auto dest: mm_heap_ripple_add_length)
  with lt have "length (a (part_store h p (fst (snd ripple)))) = length (a h)"
    by (simp add: part_ptr_def partition_start_def)
  with lt show ?case by simp
qed

declare insert_ripple_outcome.simps [simp del]

definition insert_outcome :: "(nat \<Rightarrow> int) \<Rightarrow> int \<Rightarrow> HeapArray \<Rightarrow> outcome" where
  "insert_outcome junk v h =
     (if count h = storage h \<and> fixed h then Throws LengthError h
      else
        case (if count h = storage h then grow junk h else Inr h) of
          Inl e \<Rightarrow> raised e h
        | Inr h1 \<Rightarrow>
            (case find_partition h1 v True of
               Inl e \<Rightarrow> raised e h1
             | Inr p \<Rightarrow>
                 (case insert_ripple_outcome h1 v p of
                    Returns h2 \<Rightarrow> Returns (h2\<lparr>count := count h2 + 1\<rparr>)
                  | Throws e h2 \<Rightarrow> Throws e h2
                  | Undefined \<Rightarrow> Undefined)))"

text \<open>The result of the call without the container of the exception.\<close>

fun result_of :: "outcome \<Rightarrow> HeapArray res" where
  "result_of (Returns h) = Inr h"
| "result_of (Throws e h) = Inl e"
| "result_of Undefined = Inl OutOfBounds"

subsection \<open>Removal\<close>

text \<open>The loop \<^verbatim>\<open>for(auto p = _final_partition() - 1; p > partition; --p)\<close> of \<^verbatim>\<open>remove\<close>;
  it returns the buffer and the value that ripples out of the last partition it visits.\<close>

function remove_ripple :: "HeapArray \<Rightarrow> int \<Rightarrow> nat \<Rightarrow> nat \<Rightarrow> (HeapArray \<times> int) res" where
  "remove_ripple h ripple p part =
     (if p > part then
        bindE (mm_heap_replace_at_index ripple 0 (part_ptr h p) (count_in_partition h p)) (\<lambda>r.
          remove_ripple (part_store h p (snd r)) (fst r) (p - 1) part)
      else Inr (h, ripple))"
  by pat_completeness auto
termination
  by (relation "measure (\<lambda>(h, ripple, p, part). p)") auto

declare remove_ripple.simps [simp del]

definition remove_ha :: "int \<Rightarrow> HeapArray \<Rightarrow> (bool \<times> HeapArray) res" where
  "remove_ha v h =
     bindE (find_info h v) (\<lambda>find_res.
       if fst find_res then
         bindE
           (let part = fst (snd (snd find_res)); offset = snd (snd (snd find_res)) in
            if part = final_partition h then
              bindE (mm_heap_remove_at_index offset (part_ptr h part)
                       (count_in_partition h part)) (\<lambda>r.
                Inr (part_store h part (fst (snd r))))
            else
              bindE (mm_heap_remove_min (part_ptr h (final_partition h))
                       (count_in_partition h (final_partition h))) (\<lambda>r.
              bindE (remove_ripple (part_store h (final_partition h) (fst (snd r))) (fst r)
                       (size_sub (final_partition h) 1) part) (\<lambda>hr.
              bindE (mm_heap_replace_at_index (snd hr) offset (part_ptr (fst hr) part)
                       (count_in_partition (fst hr) part)) (\<lambda>r2.
                Inr (part_store (fst hr) part (snd r2))))))
           (\<lambda>h1. Inr (True, h1\<lparr>count := size_sub (count h1) 1\<rparr>))
       else Inr (False, h))"

subsection \<open>Bulk build\<close>

text \<open>\<^verbatim>\<open>_init_heaps\<close>: sort the live slots, then heapify the partitions 1 to the last.\<close>

function init_heaps_from :: "HeapArray \<Rightarrow> nat \<Rightarrow> HeapArray res" where
  "init_heaps_from h p =
     (if p \<le> final_partition h then
        bindE (make_mm_heap (part_ptr h p) (count_in_partition h p)) (\<lambda>h'.
          init_heaps_from (part_store h p h') (p + 1))
      else Inr h)"
  by pat_completeness auto
termination
  by (relation "measure (\<lambda>(h, p). Suc (final_partition h) - p)") auto

declare init_heaps_from.simps [simp del]

definition init_heaps :: "HeapArray \<Rightarrow> HeapArray res" where
  "init_heaps h =
     (if count h \<le> length (a h)
      then init_heaps_from (h\<lparr>a := sort (take (count h) (a h)) @ drop (count h) (a h)\<rparr>) 1
      else Inl OutOfBounds)"

text \<open>
  \<^verbatim>\<open>HeapArray(int* begin, int* end, int* physical_end, bool allow_resize)\<close>: \<open>xs\<close> is the
  range from \<^verbatim>\<open>begin\<close> to \<^verbatim>\<open>end\<close>, \<open>physical\<close> the distance \<^verbatim>\<open>physical_end - begin\<close> when
  \<^verbatim>\<open>physical_end\<close> is given.
\<close>

definition HeapArray_range ::
    "(nat \<Rightarrow> int) \<Rightarrow> int list \<Rightarrow> nat option \<Rightarrow> bool \<Rightarrow> HeapArray res" where
  "HeapArray_range junk xs physical allow_resize =
     bindE (resize junk (case physical of Some n \<Rightarrow> n | None \<Rightarrow> length xs) allow_resize
              HeapArray_default) (\<lambda>h1.
     bindE (if length xs \<le> length (a h1)
            then Inr (h1\<lparr>a := xs @ drop (length xs) (a h1)\<rparr>)
            else Inl OutOfBounds) (\<lambda>h2.
     bindE (init_heaps (h2\<lparr>count := length xs\<rparr>)) (\<lambda>h3.
       Inr (h3\<lparr>fixed := \<not> allow_resize\<rparr>))))"

section \<open>Notions of the specification\<close>

text \<open>The live elements are the first \<open>count\<close> slots of the buffer.\<close>

definition live :: "HeapArray \<Rightarrow> int list" where
  "live h = take (count h) (a h)"

text \<open>
  The container states that the public interface produces: the three constructors, and
  every state that a successful \<^verbatim>\<open>insert\<close>, \<^verbatim>\<open>remove\<close>, copy or move yields from one.
\<close>

inductive reachable :: "HeapArray \<Rightarrow> bool" where
  r_default: "reachable HeapArray_default"
| r_reserve: "reachable (HeapArray_reserve junk n allow_resize)"
| r_range: "HeapArray_range junk xs physical allow_resize = Inr h \<Longrightarrow> reachable h"
| r_insert: "reachable h \<Longrightarrow> insert_ha junk v h = Inr h' \<Longrightarrow> reachable h'"
| r_remove: "reachable h \<Longrightarrow> remove_ha v h = Inr (b, h') \<Longrightarrow> reachable h'"
| r_copy: "reachable h \<Longrightarrow> copy_assign junk h = Inr h' \<Longrightarrow> reachable h'"
| r_move: "reachable h \<Longrightarrow> reachable (fst (move_assign h))"

definition square_or_zero :: "nat \<Rightarrow> bool" where
  "square_or_zero n = (n = 0 \<or> (\<exists>k. k * k = n))"

text \<open>Fresh memory that happens to hold zeros.\<close>

definition zero_junk :: "nat \<Rightarrow> int" where
  "zero_junk i = 0"

section \<open>Runs of the container on concrete inputs\<close>

lemma run_insert_1:
  "insert_ha junk 1 HeapArray_default =
     Inr \<lparr>storage = 4, count = 1, fixed = False, a = [1, junk 1, junk 2, junk 3]\<rparr>"
  by code_simp

lemma run_insert_1_2:
  "insert_ha junk 2 \<lparr>storage = 4, count = 1, fixed = False, a = [1, x1, x2, x3]\<rparr> =
     Inr \<lparr>storage = 4, count = 2, fixed = False, a = [2, 1, x2, x3]\<rparr>"
  by code_simp

lemma reachable_2_1:
  "reachable \<lparr>storage = 4, count = 2, fixed = False, a = [2, 1, 0, 0]\<rparr>"
proof -
  have "reachable \<lparr>storage = 4, count = 1, fixed = False, a = [1, 0, 0, 0]\<rparr>"
    using r_insert [OF r_default, of zero_junk 1] by (simp add: run_insert_1 zero_junk_def)
  then show ?thesis
    using r_insert [of _ zero_junk 2] run_insert_1_2 by blast
qed

section \<open>Evaluating the model\<close>

text \<open>The equations that unfold a call of the model on a concrete buffer.\<close>

lemmas heap_eval = bindE_def rd_def wr_def lt_def gt_def swap_def size_sub_def
  parent_def left_def right_def child_def has_parent_def has_gparent_def gparent_def
  take_if_lt_def take_if_gt_def min_child_def min_gchild_def min_child_or_gchild_def
  max_child_def max_gchild_def max_child_or_gchild_def mmheap_sift_down_def
  mmheap_sift_down_min.simps mmheap_sift_down_max.simps
  bubble_up_min.simps bubble_up_max.simps bubble_up_def
  mm_heap_max_def mm_heap_remove_min_def mm_heap_replace_at_index_def
  mm_heap_remove_at_index_def

lemmas ha_eval = final_partition_def ceil_sqrt_def ceil_sqrt_from.simps partition_size_def
  partition_start_def partition_end_def count_in_partition_def part_ptr_def part_store_def
  range_in_partition_def max_in_partition_def find_partition_loop.simps find_partition_def
  find_scan.simps find_info_def find_ha_def contains_def remove_ripple.simps remove_ha_def

lemma min_level_0 [simp]: "min_level 0"
  by (simp add: min_level_def)

lemma run_insert_10:
  "insert_ha junk 10 HeapArray_default =
     Inr \<lparr>storage = 4, count = 1, fixed = False, a = [10, junk 1, junk 2, junk 3]\<rparr>"
  by code_simp

lemma run_insert_10_30:
  "insert_ha junk 30 \<lparr>storage = 4, count = 1, fixed = False, a = [10, x1, x2, x3]\<rparr> =
     Inr \<lparr>storage = 4, count = 2, fixed = False, a = [30, 10, x2, x3]\<rparr>"
  by code_simp

lemma run_insert_10_30_30:
  "insert_ha junk 30 \<lparr>storage = 4, count = 2, fixed = False, a = [30, 10, x2, x3]\<rparr> =
     Inr \<lparr>storage = 4, count = 3, fixed = False, a = [30, 10, 30, x3]\<rparr>"
  by code_simp

lemma run_insert_10_30_30_30:
  "insert_ha junk 30 \<lparr>storage = 4, count = 3, fixed = False, a = [30, 10, 30, x3]\<rparr> =
     Inr \<lparr>storage = 4, count = 4, fixed = False, a = [30, 10, 30, 30]\<rparr>"
  by code_simp

lemma run_insert_10_30_30_30_20:
  "insert_ha junk 20 \<lparr>storage = 4, count = 4, fixed = False, a = [30, 10, 30, 30]\<rparr> =
     Inr \<lparr>storage = 9, count = 5, fixed = False,
          a = [20, 10, 30, 30, 30, junk 5, junk 6, junk 7, junk 8]\<rparr>"
  by code_simp

lemma run_contains_20:
  "contains \<lparr>storage = 9, count = 5, fixed = False,
              a = [20, 10, 30, 30, 30, x5, x6, x7, x8]\<rparr> 20 = Inr False"
  by (simp add: ha_eval heap_eval Let_def)

lemma reachable_30_10_30_30:
  "reachable \<lparr>storage = 4, count = 4, fixed = False, a = [30, 10, 30, 30]\<rparr>"
proof -
  have "reachable \<lparr>storage = 4, count = 1, fixed = False, a = [10, 0, 0, 0]\<rparr>"
    using r_insert [OF r_default, of zero_junk 10] by (simp add: run_insert_10 zero_junk_def)
  then have "reachable \<lparr>storage = 4, count = 2, fixed = False, a = [30, 10, 0, 0]\<rparr>"
    using r_insert [of _ zero_junk 30] run_insert_10_30 by blast
  then have "reachable \<lparr>storage = 4, count = 3, fixed = False, a = [30, 10, 30, 0]\<rparr>"
    using r_insert [of _ zero_junk 30] run_insert_10_30_30 by blast
  then show ?thesis
    using r_insert [of _ zero_junk 30] run_insert_10_30_30_30 by blast
qed

section \<open>The claims on the min-max heap primitives that the code does not meet\<close>

text \<open>
  C5. \<^verbatim>\<open>mm_heap_remove_max\<close> is to return the maximum of a heap of \<open>n \<ge> 1\<close> elements.
  On the heap \<open>10, 90, 50\<close> the maximum is 90 at index 1; the code returns the number 1,
  the index of the larger child of the root, and not the value stored there.
\<close>

theorem mm_heap_remove_max_returns_index:
  "mm_heap_remove_max [10, 90, 50] 3 = Inr (1, [10, 50, 50], 2)
   \<and> Max (set (take 3 [10, 90, 50 :: int])) = 90"
proof -
  have "mm_heap_remove_max [10, 90, 50] 3 = Inr (1, [10, 50, 50], 2)"
    by code_simp
  then show ?thesis by simp
qed

text \<open>
  C6. \<^verbatim>\<open>mm_heap_replace_at_index\<close> and \<^verbatim>\<open>mm_heap_remove_at_index\<close> are to refuse every
  index \<open>i \<ge> n\<close>. The test in both is \<^verbatim>\<open>index > count\<close>, so the index \<open>i = n\<close> passes: on the
  heap \<open>5, 8, 6\<close> (three live elements, one more slot behind them) index 3 is accepted,
  the replacement writes the slot behind the heap and bubbles the new value up to the
  root, and the removal returns the content of the dead slot and drops the element 6.
  An index beyond the count is refused with \<^verbatim>\<open>std::range_error\<close>, and an empty heap
  with \<^verbatim>\<open>std::runtime_error\<close>, which is tested first.
\<close>

theorem mm_heap_index_equal_count_accepted:
  "mm_heap_replace_at_index 0 3 [5, 8, 6, 1] 3 = Inr (1, [0, 8, 6, 5])
   \<and> mm_heap_remove_at_index 3 [5, 8, 6, 1] 3 = Inr (1, [5, 8, 6, 6], 2)
   \<and> mm_heap_replace_at_index 0 4 [5, 8, 6, 1, 7] 3 = Inl RangeError
   \<and> mm_heap_remove_at_index 4 [5, 8, 6, 1, 7] 3 = Inl RangeError
   \<and> mm_heap_replace_at_index 0 0 [5, 8, 6, 1] 0 = Inl RuntimeError
   \<and> mm_heap_remove_at_index 0 [5, 8, 6, 1] 0 = Inl RuntimeError"
  by code_simp

text \<open>
  C7. \<^verbatim>\<open>mm_heap_remove_min\<close> is to touch only the live slots. With one live element the
  count drops to 0 and \<^verbatim>\<open>count-1\<close> wraps around to the largest \<^verbatim>\<open>size_t\<close>, so the
  sift-down takes every slot behind the heap for a child: on a buffer of one slot it
  reads past the allocation, on a longer buffer it reads the dead slots 1 to 6 and
  swaps slot 0 with slot 1. The container reaches this through \<^verbatim>\<open>remove\<close>
  when the last partition holds one element.
\<close>

theorem mm_heap_remove_min_single_leaves_live_region:
  "mm_heap_remove_min [5] 1 = Inl OutOfBounds
   \<and> mm_heap_remove_min [5, 3, 4, 9, 9, 9, 9] 1 = Inr (5, [3, 5, 4, 9, 9, 9, 9], 0)
   \<and> remove_ha 1 \<lparr>storage = 4, count = 2, fixed = False, a = [1, 2, 0, 0]\<rparr> = Inl OutOfBounds"
  by (simp add: ha_eval heap_eval Let_def)

section \<open>The claims on the container that the code does not meet\<close>

text \<open>
  C1. The maximum of every partition is to be at most the first element of the next
  one, in every reachable state. \<^verbatim>\<open>_find_partition\<close> sends a value that is at least the
  minimum of the last partition into that partition also when the partition is full;
  \<^verbatim>\<open>insert\<close> then keeps the new value there and ripples the old maximum forward.
  After \<^verbatim>\<open>insert(1)\<close>, \<^verbatim>\<open>insert(2)\<close> on the empty container the buffer starts \<open>2, 1\<close>:
  partition 0 has maximum 2, partition 1 starts with 1.
\<close>

theorem insert_breaks_global_ordering:
  "\<exists>h. reachable h \<and> 0 + 1 \<le> final_partition h
       \<and> max_in_partition h 0 = Inr 2 \<and> rd (a h) (partition_start (0 + 1)) = Inr 1"
proof -
  have "0 + 1 \<le> final_partition \<lparr>storage = 4, count = 2, fixed = False, a = [2, 1, 0, 0]\<rparr>"
    "max_in_partition \<lparr>storage = 4, count = 2, fixed = False, a = [2, 1, 0, 0]\<rparr> 0 = Inr 2"
    "rd (a \<lparr>storage = 4, count = 2, fixed = False, a = [2, 1, 0, 0]\<rparr>) (partition_start (0 + 1))
       = Inr 1"
    by code_simp+
  with reachable_2_1 show ?thesis by blast
qed

text \<open>
  C2. After \<^verbatim>\<open>insert(v)\<close>, \<^verbatim>\<open>contains(v)\<close> is to be true. The inserts of 10, 30, 30, 30
  leave the buffer \<open>30, 10, 30, 30\<close> (the defect of C1); \<^verbatim>\<open>insert(20)\<close> puts 20 into
  partition 0, and the search for 20 then stops at partition 1, whose range is 10 to 30,
  and does not find it there.
\<close>

theorem insert_then_contains_false:
  "\<exists>h h'. reachable h \<and> insert_ha zero_junk 20 h = Inr h' \<and> contains h' 20 = Inr False"
  using reachable_30_10_30_30 run_insert_10_30_30_30_20 run_contains_20 by blast

text \<open>
  C3. \<^verbatim>\<open>min()\<close> is to be the least and \<^verbatim>\<open>max()\<close> the greatest live element. In the
  reachable state of C1 the live elements are 2 and 1; \<^verbatim>\<open>min()\<close> returns 2 and
  \<^verbatim>\<open>max()\<close> returns 1.
\<close>

theorem min_max_wrong_after_two_inserts:
  "\<exists>h. reachable h \<and> count h \<ge> 1 \<and> min_ha h = Inr 2 \<and> max_ha h = Inr 1
       \<and> Min (set (live h)) = 1 \<and> Max (set (live h)) = 2"
proof -
  have "count \<lparr>storage = 4, count = 2, fixed = False, a = [2, 1, 0, 0]\<rparr> \<ge> 1"
    "min_ha \<lparr>storage = 4, count = 2, fixed = False, a = [2, 1, 0, 0]\<rparr> = Inr 2"
    "max_ha \<lparr>storage = 4, count = 2, fixed = False, a = [2, 1, 0, 0]\<rparr> = Inr 1"
    by code_simp+
  moreover have
    "Min (set (live \<lparr>storage = 4, count = 2, fixed = False, a = [2, 1, 0, 0]\<rparr>)) = 1"
    "Max (set (live \<lparr>storage = 4, count = 2, fixed = False, a = [2, 1, 0, 0]\<rparr>)) = 2"
    by (simp_all add: live_def)
  ultimately show ?thesis using reachable_2_1 by blast
qed

section \<open>A fixed container of one slot\<close>

lemma result_of_raised [simp]: "result_of (raised e h) = Inl e"
  by (simp add: raised_def)

lemma insert_ripple_result: "insert_ripple h v p = result_of (insert_ripple_outcome h v p)"
proof (induction h v p rule: insert_ripple.induct)
  case (1 h v p)
  show ?case
  proof (cases "mm_heap_ripple_add v (part_ptr h p) (count_in_partition h p) (partition_size p)")
    case (Inl e)
    then show ?thesis
      by (subst insert_ripple.simps, subst insert_ripple_outcome.simps) (simp add: bindE_def)
  next
    case (Inr ripple)
    show ?thesis
    proof (cases "fst (fst ripple)")
      case True
      from "1.IH"[OF Inr True] Inr True show ?thesis
        by (subst insert_ripple.simps, subst insert_ripple_outcome.simps) (simp add: bindE_def)
    next
      case False
      with Inr show ?thesis
        by (subst insert_ripple.simps, subst insert_ripple_outcome.simps) (simp add: bindE_def)
    qed
  qed
qed

lemma insert_ha_result: "insert_ha junk v h = result_of (insert_outcome junk v h)"
  by (auto simp: insert_ha_def insert_outcome_def bindE_def insert_ripple_result
      split: sum.splits outcome.splits)

text \<open>
  C9. A container reserved with one slot and no resizing takes \<^verbatim>\<open>insert(10)\<close> and has
  size 1; \<^verbatim>\<open>insert(20)\<close> then throws \<^verbatim>\<open>std::length_error\<close>, and the container at the
  exception is the one that the first insert produced: contents, count and storage are
  unchanged. This holds whatever the fresh slot held.
\<close>

theorem reserve_one_fixed_second_insert_fails:
  "insert_outcome junk 10 (HeapArray_reserve junk0 1 False)
     = Returns \<lparr>storage = 1, count = 1, fixed = True, a = [10]\<rparr>
   \<and> insert_ha junk 10 (HeapArray_reserve junk0 1 False)
     = Inr \<lparr>storage = 1, count = 1, fixed = True, a = [10]\<rparr>
   \<and> size_ha \<lparr>storage = 1, count = 1, fixed = True, a = [10]\<rparr> = 1
   \<and> insert_outcome junk' 20 \<lparr>storage = 1, count = 1, fixed = True, a = [10]\<rparr>
     = Throws LengthError \<lparr>storage = 1, count = 1, fixed = True, a = [10]\<rparr>
   \<and> insert_ha junk' 20 \<lparr>storage = 1, count = 1, fixed = True, a = [10]\<rparr> = Inl LengthError"
proof -
  have "insert_outcome junk 10 (HeapArray_reserve junk0 1 False)
          = Returns \<lparr>storage = 1, count = 1, fixed = True, a = [10]\<rparr>"
    by code_simp
  moreover have "insert_outcome junk' 20 \<lparr>storage = 1, count = 1, fixed = True, a = [10]\<rparr>
          = Throws LengthError \<lparr>storage = 1, count = 1, fixed = True, a = [10]\<rparr>"
    by (simp add: insert_outcome_def)
  ultimately show ?thesis by (simp add: insert_ha_result size_ha_def)
qed

subsection \<open>Which errors a call can end in\<close>

definition errs_in :: "error set \<Rightarrow> 'a res \<Rightarrow> bool" where
  "errs_in S m = (\<forall>e. m = Inl e \<longrightarrow> e \<in> S)"

lemma errs_in_Inr [simp]: "errs_in S (Inr x)"
  by (simp add: errs_in_def)

lemma errs_in_Inl [simp]: "errs_in S (Inl e) = (e \<in> S)"
  by (simp add: errs_in_def)

lemma errs_in_bindE:
  "errs_in S m \<Longrightarrow> (\<And>x. m = Inr x \<Longrightarrow> errs_in S (f x)) \<Longrightarrow> errs_in S (bindE m f)"
  by (cases m) (simp_all add: bindE_def)

lemma errs_in_mono: "errs_in S m \<Longrightarrow> S \<subseteq> T \<Longrightarrow> errs_in T m"
  by (auto simp: errs_in_def)

lemma errs_in_if:
  "(c \<Longrightarrow> errs_in S x) \<Longrightarrow> (\<not> c \<Longrightarrow> errs_in S y) \<Longrightarrow> errs_in S (if c then x else y)"
  by simp

lemma errs_in_widen: "errs_in {OutOfBounds} m \<Longrightarrow> errs_in {RuntimeError, OutOfBounds} m"
  by (auto simp: errs_in_def)

lemma rd_errs: "errs_in {OutOfBounds} (rd h i)"
  by (simp add: rd_def)

lemma wr_errs: "errs_in {OutOfBounds} (wr h i v)"
  by (simp add: wr_def)

lemma lt_errs: "errs_in {OutOfBounds} (lt h i j)"
  by (auto simp: lt_def intro!: errs_in_bindE rd_errs)

lemma gt_errs: "errs_in {OutOfBounds} (gt h i j)"
  by (auto simp: gt_def intro!: errs_in_bindE rd_errs)

lemma swap_errs: "errs_in {OutOfBounds} (swap h i j)"
  by (auto simp: swap_def intro!: errs_in_bindE rd_errs wr_errs)

lemma take_if_lt_errs: "errs_in {OutOfBounds} (take_if_lt h r c m)"
  by (auto simp: take_if_lt_def intro!: errs_in_bindE lt_errs)

lemma take_if_gt_errs: "errs_in {OutOfBounds} (take_if_gt h r c m)"
  by (auto simp: take_if_gt_def intro!: errs_in_bindE gt_errs)

lemma min_child_errs: "errs_in {OutOfBounds} (min_child h i r)"
  by (auto simp: min_child_def intro!: errs_in_bindE take_if_lt_errs)

lemma max_child_errs: "errs_in {OutOfBounds} (max_child h i r)"
  by (auto simp: max_child_def intro!: errs_in_bindE take_if_gt_errs)

lemma min_gchild_errs: "errs_in {OutOfBounds} (min_gchild h i r)"
  by (auto simp: min_gchild_def Let_def intro!: errs_in_bindE take_if_lt_errs)

lemma max_gchild_errs: "errs_in {OutOfBounds} (max_gchild h i r)"
  by (auto simp: max_gchild_def Let_def intro!: errs_in_bindE take_if_gt_errs)

lemma min_child_or_gchild_errs: "errs_in {OutOfBounds} (min_child_or_gchild h i r)"
  by (auto simp: min_child_or_gchild_def
      intro!: errs_in_bindE min_child_errs min_gchild_errs lt_errs)

lemma max_child_or_gchild_errs: "errs_in {OutOfBounds} (max_child_or_gchild h i r)"
  by (auto simp: max_child_or_gchild_def
      intro!: errs_in_bindE max_child_errs max_gchild_errs gt_errs)

lemma sift_down_min_errs: "errs_in {OutOfBounds} (mmheap_sift_down_min h i r)"
proof (induction h i r rule: mmheap_sift_down_min.induct)
  case (1 h i r)
  show ?case
    by (subst mmheap_sift_down_min.simps)
       (intro errs_in_if errs_in_bindE errs_in_Inr min_child_or_gchild_errs lt_errs gt_errs
          swap_errs "1.IH"; assumption)
qed

lemma sift_down_max_errs: "errs_in {OutOfBounds} (mmheap_sift_down_max h i r)"
proof (induction h i r rule: mmheap_sift_down_max.induct)
  case (1 h i r)
  show ?case
    by (subst mmheap_sift_down_max.simps)
       (intro errs_in_if errs_in_bindE errs_in_Inr max_child_or_gchild_errs lt_errs gt_errs
          swap_errs "1.IH"; assumption)
qed

lemma sift_down_errs: "errs_in {OutOfBounds} (mmheap_sift_down h i r)"
  by (simp add: mmheap_sift_down_def sift_down_min_errs sift_down_max_errs)

lemma bubble_up_min_errs: "errs_in {OutOfBounds} (bubble_up_min h i)"
proof (induction h i rule: bubble_up_min.induct)
  case (1 h i)
  show ?case
    by (subst bubble_up_min.simps)
       (intro errs_in_if errs_in_bindE errs_in_Inr lt_errs swap_errs "1.IH"; assumption)
qed

lemma bubble_up_max_errs: "errs_in {OutOfBounds} (bubble_up_max h i)"
proof (induction h i rule: bubble_up_max.induct)
  case (1 h i)
  show ?case
    by (subst bubble_up_max.simps)
       (intro errs_in_if errs_in_bindE errs_in_Inr gt_errs swap_errs "1.IH"; assumption)
qed

lemma bubble_up_errs: "errs_in {OutOfBounds} (bubble_up h i)"
  by (auto simp: bubble_up_def
      intro!: errs_in_bindE lt_errs gt_errs swap_errs bubble_up_min_errs bubble_up_max_errs)

text \<open>\<^verbatim>\<open>mm_heap_add\<close> throws only by its first test, before it writes.\<close>

lemma mm_heap_add_errs:
  "mm_heap_add v h n cap = Inl e \<Longrightarrow> e = OutOfBounds \<or> (e = RuntimeError \<and> \<not> n < cap)"
proof (cases "n < cap")
  case True
  have "errs_in {OutOfBounds} (bindE (wr h n v) (\<lambda>h1. bindE (bubble_up h1 n) (\<lambda>h2. Inr (h2, n + 1))))"
    by (auto intro!: errs_in_bindE wr_errs bubble_up_errs)
  moreover assume "mm_heap_add v h n cap = Inl e"
  ultimately show ?thesis using True by (simp add: mm_heap_add_def errs_in_def)
next
  case False
  moreover assume "mm_heap_add v h n cap = Inl e"
  ultimately show ?thesis by (simp add: mm_heap_add_def)
qed

lemma mm_heap_ripple_add_errs:
  "errs_in {RuntimeError, OutOfBounds} (mm_heap_ripple_add v h n cap)"
proof -
  have a: "errs_in {RuntimeError, OutOfBounds} (mm_heap_add v h n cap)"
    using mm_heap_add_errs[of v h n cap] by (auto simp: errs_in_def)
  show ?thesis
    unfolding mm_heap_ripple_add_def
    by (intro errs_in_if errs_in_bindE errs_in_Inr a rd_errs[THEN errs_in_widen]
          wr_errs[THEN errs_in_widen] swap_errs[THEN errs_in_widen]
          max_child_errs[THEN errs_in_widen] sift_down_errs[THEN errs_in_widen])
qed

lemma mm_heap_max_errs: "errs_in {RuntimeError, OutOfBounds} (mm_heap_max h n)"
  unfolding mm_heap_max_def
  by (intro errs_in_if errs_in_bindE rd_errs[THEN errs_in_widen]
        max_child_errs[THEN errs_in_widen]) simp

lemma range_in_partition_errs: "errs_in {RuntimeError, OutOfBounds} (range_in_partition h p)"
  unfolding range_in_partition_def
  by (intro errs_in_bindE errs_in_Inr rd_errs[THEN errs_in_widen] mm_heap_max_errs)

lemma max_in_partition_errs: "errs_in {RuntimeError, OutOfBounds} (max_in_partition h p)"
  by (simp add: max_in_partition_def mm_heap_max_errs)

lemma find_partition_loop_errs:
  "errs_in {RuntimeError, OutOfBounds} (find_partition_loop h v for_insert l r)"
proof (induction h v for_insert l r rule: find_partition_loop.induct)
  case (1 h v for_insert l r)
  show ?case
    by (subst find_partition_loop.simps)
       (intro errs_in_if errs_in_bindE errs_in_Inr range_in_partition_errs
          max_in_partition_errs "1.IH"; assumption)
qed

lemma find_partition_errs: "errs_in {RuntimeError, OutOfBounds} (find_partition h v for_insert)"
  by (simp add: find_partition_def find_partition_loop_errs)

text \<open>\<^verbatim>\<open>_resize\<close> throws only by its first test.\<close>

lemma resize_errs:
  "resize junk new_size round_up h = Inl e \<Longrightarrow> e = OutOfBounds \<or> (e = RuntimeError \<and> fixed h)"
  by (auto simp: resize_def Let_def split: if_splits)

lemma grow_errs: "grow junk h = Inl e \<Longrightarrow> e = OutOfBounds \<or> (e = RuntimeError \<and> fixed h)"
  by (auto simp: grow_def Let_def dest: resize_errs)

lemma insert_ripple_outcome_throws:
  "insert_ripple_outcome h v p = Throws e h' \<Longrightarrow> e = RuntimeError"
proof (induction h v p rule: insert_ripple_outcome.induct)
  case (1 h v p)
  show ?case
  proof (cases "mm_heap_ripple_add v (part_ptr h p) (count_in_partition h p) (partition_size p)")
    case (Inl e')
    with mm_heap_ripple_add_errs[of v "part_ptr h p" "count_in_partition h p" "partition_size p"]
    have "e' = RuntimeError \<or> e' = OutOfBounds" by simp
    with Inl "1.prems" show ?thesis
      by (subst (asm) insert_ripple_outcome.simps) (auto simp: raised_def)
  next
    case (Inr ripple)
    show ?thesis
    proof (cases "fst (fst ripple)")
      case True
      with Inr "1.prems" have "insert_ripple_outcome (part_store h p (fst (snd ripple)))
                                 (snd (fst ripple)) (p + 1) = Throws e h'"
        by (subst (asm) insert_ripple_outcome.simps) simp
      from "1.IH"[OF Inr True this] show ?thesis .
    next
      case False
      with Inr "1.prems" show ?thesis
        by (subst (asm) insert_ripple_outcome.simps) simp
    qed
  qed
qed

text \<open>
  \<^verbatim>\<open>insert\<close> throws \<^verbatim>\<open>std::length_error\<close> exactly when the container is full and of fixed
  size, and the container at that exception is the one \<^verbatim>\<open>insert\<close> was called on.
\<close>

theorem insert_length_error_leaves_container:
  "insert_outcome junk v h = Throws LengthError h' \<longleftrightarrow>
     count h = storage h \<and> fixed h \<and> h' = h"
proof (cases "count h = storage h \<and> fixed h")
  case True
  then show ?thesis by (auto simp: insert_outcome_def)
next
  case False
  have "insert_outcome junk v h \<noteq> Throws LengthError h'"
  proof
    assume t: "insert_outcome junk v h = Throws LengthError h'"
    show False
    proof (cases "if count h = storage h then grow junk h else Inr h")
      case (Inl e)
      then have "e = OutOfBounds \<or> e = RuntimeError" by (auto split: if_splits dest: grow_errs)
      with t False Inl show False by (auto simp: insert_outcome_def raised_def)
    next
      case h1: (Inr h1)
      show False
      proof (cases "find_partition h1 v True")
        case (Inl e)
        with find_partition_errs[of h1 v True] have "e = RuntimeError \<or> e = OutOfBounds" by simp
        with t False h1 Inl show False by (auto simp: insert_outcome_def raised_def)
      next
        case (Inr p)
        with t False h1 have "insert_ripple_outcome h1 v p = Throws LengthError h'"
          by (auto simp: insert_outcome_def split: outcome.splits)
        from insert_ripple_outcome_throws[OF this] show False by simp
      qed
    qed
  qed
  with False show ?thesis by auto
qed

section \<open>Searching reads the whole partition\<close>

lemma find_scan_found:
  "e < length buf \<Longrightarrow> \<exists>k. find_scan buf v i e = Inr ((\<exists>j\<in>{i..e}. buf ! j = v), k)"
proof (induction buf v i e rule: find_scan.induct)
  case (1 buf v i e)
  show ?case
  proof (cases "i \<le> e")
    case False
    then show ?thesis by (subst find_scan.simps) simp
  next
    case True
    with "1.prems" have rd: "rd buf i = Inr (buf ! i)" by (simp add: rd_def)
    show ?thesis
    proof (cases "buf ! i = v")
      case True
      with \<open>i \<le> e\<close> rd show ?thesis
        by (subst find_scan.simps) (auto simp: bindE_def)
    next
      case False
      from "1.IH"[OF \<open>i \<le> e\<close> rd False "1.prems"]
      obtain k where k: "find_scan buf v (i + 1) e = Inr ((\<exists>j\<in>{i + 1..e}. buf ! j = v), k)"
        by blast
      have "(\<exists>j\<in>{i..e}. buf ! j = v) = (\<exists>j\<in>{i + 1..e}. buf ! j = v)"
      proof
        assume "\<exists>j\<in>{i..e}. buf ! j = v"
        then obtain j where "j \<in> {i..e}" "buf ! j = v" by blast
        with False have "j \<in> {i + 1..e}" by (cases "j = i") auto
        with \<open>buf ! j = v\<close> show "\<exists>j\<in>{i + 1..e}. buf ! j = v" by blast
      next
        assume "\<exists>j\<in>{i + 1..e}. buf ! j = v"
        then show "\<exists>j\<in>{i..e}. buf ! j = v" by auto
      qed
      with k \<open>i \<le> e\<close> rd False show ?thesis
        by (subst find_scan.simps) (simp add: bindE_def)
    qed
  qed
qed

lemma contains_scans_partition:
  assumes "count h > 0" "find_partition h v False = Inr p" "partition_end p < length (a h)"
  shows "contains h v = Inr (\<exists>j\<in>{partition_start p..partition_end p}. a h ! j = v)"
proof -
  from find_scan_found[OF assms(3), of v "partition_start p"] obtain k where
    "find_scan (a h) v (partition_start p) (partition_end p)
       = Inr ((\<exists>j\<in>{partition_start p..partition_end p}. a h ! j = v), k)" by blast
  with assms(1,2) show ?thesis
    by (simp add: contains_def find_ha_def find_info_def bindE_def)
qed

lemma run_insert_40:
  "insert_ha junk 40 HeapArray_default =
     Inr \<lparr>storage = 4, count = 1, fixed = False, a = [40, junk 1, junk 2, junk 3]\<rparr>"
  by code_simp

lemma run_insert_40_30:
  "insert_ha junk 30 \<lparr>storage = 4, count = 1, fixed = False, a = [40, x1, x2, x3]\<rparr> =
     Inr \<lparr>storage = 4, count = 2, fixed = False, a = [30, 40, x2, x3]\<rparr>"
  by code_simp

lemma run_insert_40_30_20:
  "insert_ha junk 20 \<lparr>storage = 4, count = 2, fixed = False, a = [30, 40, x2, x3]\<rparr> =
     Inr \<lparr>storage = 4, count = 3, fixed = False, a = [20, 30, 40, x3]\<rparr>"
  by code_simp

lemma run_insert_40_30_20_10:
  "insert_ha junk 10 \<lparr>storage = 4, count = 3, fixed = False, a = [20, 30, 40, x3]\<rparr> =
     Inr \<lparr>storage = 4, count = 4, fixed = False, a = [10, 20, 40, 30]\<rparr>"
  by code_simp

lemma run_remove_30:
  "remove_ha 30 \<lparr>storage = 4, count = 4, fixed = False, a = [10, 20, 40, 30]\<rparr> =
     Inr (True, \<lparr>storage = 4, count = 3, fixed = False, a = [10, 20, 40, 30]\<rparr>)"
  by code_simp

lemma run_contains_30:
  "contains \<lparr>storage = 4, count = 3, fixed = False, a = [10, 20, 40, 30]\<rparr> 30 = Inr True"
  by code_simp

lemma run_find_partition_30:
  "find_partition \<lparr>storage = 4, count = 3, fixed = False, a = [10, 20, 40, 30]\<rparr> 30 False = Inr 1"
  by code_simp

lemma reachable_10_20_40_30_after_remove:
  "reachable \<lparr>storage = 4, count = 3, fixed = False, a = [10, 20, 40, 30]\<rparr>"
proof -
  have "reachable \<lparr>storage = 4, count = 1, fixed = False, a = [40, 0, 0, 0]\<rparr>"
    using r_insert [OF r_default, of zero_junk 40] by (simp add: run_insert_40 zero_junk_def)
  then have "reachable \<lparr>storage = 4, count = 2, fixed = False, a = [30, 40, 0, 0]\<rparr>"
    using r_insert [of _ zero_junk 30] run_insert_40_30 by blast
  then have "reachable \<lparr>storage = 4, count = 3, fixed = False, a = [20, 30, 40, 0]\<rparr>"
    using r_insert [of _ zero_junk 20] run_insert_40_30_20 by blast
  then have "reachable \<lparr>storage = 4, count = 4, fixed = False, a = [10, 20, 40, 30]\<rparr>"
    using r_insert [of _ zero_junk 10] run_insert_40_30_20_10 by blast
  then show ?thesis
    using r_remove [of _ 30] run_remove_30 by blast
qed

text \<open>
  C10. The scan of \<^verbatim>\<open>_find\<close> runs over all slots of the candidate partition, from
  \<^verbatim>\<open>_partition_start(p)\<close> to \<^verbatim>\<open>_partition_end(p)\<close>; the live count does not bound it.
  When the candidate is the last, partly filled partition, the scan reads its dead
  slots. The inserts of 40, 30, 20, 10 and the removal of 30 leave the live elements
  10, 20, 40 and the removed 30 in the dead slot 3; \<^verbatim>\<open>contains(30)\<close> finds it there.
\<close>

theorem contains_reads_dead_slots:
  "(\<forall>h v p. count h > 0 \<longrightarrow> find_partition h v False = Inr p
       \<longrightarrow> partition_end p < length (a h)
       \<longrightarrow> contains h v = Inr (\<exists>j\<in>{partition_start p..partition_end p}. a h ! j = v))
   \<and> (\<exists>h v p. reachable h \<and> find_partition h v False = Inr p \<and> p = final_partition h
         \<and> count h \<le> partition_end p \<and> v \<notin> set (live h) \<and> contains h v = Inr True)"
proof (intro conjI allI impI)
  show "contains h v = Inr (\<exists>j\<in>{partition_start p..partition_end p}. a h ! j = v)"
    if "count h > 0" "find_partition h v False = Inr p" "partition_end p < length (a h)"
    for h v p
    using that by (rule contains_scans_partition)
next
  have "1 = final_partition \<lparr>storage = 4, count = 3, fixed = False, a = [10, 20, 40, 30]\<rparr>"
    by code_simp
  moreover have
    "count \<lparr>storage = 4, count = 3, fixed = False, a = [10, 20, 40, 30]\<rparr> \<le> partition_end 1"
    "30 \<notin> set (live \<lparr>storage = 4, count = 3, fixed = False, a = [10, 20, 40, 30]\<rparr>)"
    by (simp_all add: partition_end_def live_def)
  ultimately show "\<exists>h v p. reachable h \<and> find_partition h v False = Inr p
      \<and> p = final_partition h \<and> count h \<le> partition_end p \<and> v \<notin> set (live h)
      \<and> contains h v = Inr True"
    using reachable_10_20_40_30_after_remove run_find_partition_30 run_contains_30 by blast
qed

theorem contains_reads_dead_slots_witness:
  "count \<lparr>storage = 4, count = 3, fixed = False, a = [10, 20, 40, 30]\<rparr> > 0
   \<and> find_partition \<lparr>storage = 4, count = 3, fixed = False, a = [10, 20, 40, 30]\<rparr> 30 False
       = Inr 1
   \<and> partition_end 1 < length (a \<lparr>storage = 4, count = 3, fixed = False, a = [10, 20, 40, 30]\<rparr>)
   \<and> contains \<lparr>storage = 4, count = 3, fixed = False, a = [10, 20, 40, 30]\<rparr> 30
       = Inr (\<exists>j\<in>{partition_start 1..partition_end 1}. [10, 20, 40, 30 :: int] ! j = 30)"
proof -
  have c: "count \<lparr>storage = 4, count = 3, fixed = False, a = [10, 20, 40, 30]\<rparr> > 0"
    and e: "partition_end 1
            < length (a \<lparr>storage = 4, count = 3, fixed = False, a = [10, 20, 40, 30]\<rparr>)"
    by (simp_all add: partition_end_def)
  from contains_reads_dead_slots [THEN conjunct1, rule_format, OF c run_find_partition_30 e]
    c e run_find_partition_30
  show ?thesis by simp
qed

section \<open>The size of the storage\<close>

lemma insert_ripple_storage: "insert_ripple h v p = Inr h' \<Longrightarrow> storage h' = storage h"
proof (induction h v p rule: insert_ripple.induct)
  case (1 h v p)
  from "1.prems" obtain ripple where
    r: "mm_heap_ripple_add v (part_ptr h p) (count_in_partition h p) (partition_size p) = Inr ripple"
    and k: "(if fst (fst ripple)
          then insert_ripple (part_store h p (fst (snd ripple))) (snd (fst ripple)) (p + 1)
          else Inr (part_store h p (fst (snd ripple)))) = Inr h'"
    by (subst (asm) insert_ripple.simps) (auto simp: bindE_Inr_iff)
  show ?case
  proof (cases "fst (fst ripple)")
    case True
    with k "1.IH"[OF r True] show ?thesis by simp
  next
    case False
    with k show ?thesis by auto
  qed
qed

lemma resize_storage:
  "resize junk n round_up h = Inr h' \<Longrightarrow>
     storage h' = (if n > 0 \<and> round_up then ceil_sqrt n * ceil_sqrt n else n)"
  by (auto simp: resize_def Let_def split: if_splits)

lemma grow_storage: "grow junk h = Inr h' \<Longrightarrow> square_or_zero (storage h')"
  by (auto simp: grow_def Let_def square_or_zero_def MIN_HEAPARRAY_ALLOCATION_def
      dest!: resize_storage split: if_splits)

lemma insert_ha_storage:
  "insert_ha junk v h = Inr h' \<Longrightarrow> storage h' = storage h \<or> square_or_zero (storage h')"
  by (auto simp: insert_ha_def bindE_Inr_iff split: if_splits
      dest!: insert_ripple_storage grow_storage)

lemma remove_ripple_storage:
  "remove_ripple h ripple p q = Inr hr \<Longrightarrow> storage (fst hr) = storage h"
proof (induction h ripple p q rule: remove_ripple.induct)
  case (1 h ripple p q)
  show ?case
  proof (cases "p > q")
    case False
    with "1.prems" show ?thesis by (subst (asm) remove_ripple.simps) auto
  next
    case True
    with "1.prems" obtain r where
      r: "mm_heap_replace_at_index ripple 0 (part_ptr h p) (count_in_partition h p) = Inr r"
      and k: "remove_ripple (part_store h p (snd r)) (fst r) (p - 1) q = Inr hr"
      by (subst (asm) remove_ripple.simps) (auto simp: bindE_Inr_iff)
    from "1.IH"[OF True r k] show ?thesis by simp
  qed
qed

lemma remove_ha_storage: "remove_ha v h = Inr (b, h') \<Longrightarrow> storage h' = storage h"
  by (auto simp: remove_ha_def bindE_Inr_iff Let_def split: if_splits
      dest!: remove_ripple_storage)

lemma init_heaps_from_storage: "init_heaps_from h p = Inr h' \<Longrightarrow> storage h' = storage h"
proof (induction h p rule: init_heaps_from.induct)
  case (1 h p)
  show ?case
  proof (cases "p \<le> final_partition h")
    case False
    with "1.prems" show ?thesis by (subst (asm) init_heaps_from.simps) auto
  next
    case True
    with "1.prems" obtain hp where
      r: "make_mm_heap (part_ptr h p) (count_in_partition h p) = Inr hp"
      and k: "init_heaps_from (part_store h p hp) (p + 1) = Inr h'"
      by (subst (asm) init_heaps_from.simps) (auto simp: bindE_Inr_iff)
    from "1.IH"[OF True r k] show ?thesis by simp
  qed
qed

lemma HeapArray_range_storage:
  "HeapArray_range junk xs physical allow_resize = Inr h' \<Longrightarrow>
     storage h' = (let n = (case physical of Some n \<Rightarrow> n | None \<Rightarrow> length xs)
                   in if n > 0 \<and> allow_resize then ceil_sqrt n * ceil_sqrt n else n)"
  by (auto simp: HeapArray_range_def init_heaps_def bindE_Inr_iff Let_def
      split: if_splits dest!: init_heaps_from_storage resize_storage)

lemma two_not_square: "\<not> square_or_zero 2"
proof -
  have "k * k \<noteq> 2" for k :: nat
  proof (cases "k \<le> 1")
    case True
    then have "k * k \<le> 1 * 1" by (intro mult_le_mono)
    then show ?thesis by simp
  next
    case False
    then have "2 * 2 \<le> k * k" by (intro mult_le_mono) simp_all
    then show ?thesis by simp
  qed
  then show ?thesis by (simp add: square_or_zero_def)
qed


text \<open>
  C8, as the code has it. The storage is a perfect square or 0 where the code rounds:
  after the default constructor, after \<^verbatim>\<open>_resize\<close> with \<^verbatim>\<open>round_up\<close>, after \<^verbatim>\<open>_grow\<close>
  and after the construction from a range that may resize. \<^verbatim>\<open>insert\<close> leaves the
  storage as it was or, when it grows, a perfect square; \<^verbatim>\<open>remove\<close>, copy and move leave
  it as it was. The constructor with a reserved size and the construction from a range
  that may not resize (\<^verbatim>\<open>_resize\<close> without \<^verbatim>\<open>round_up\<close>) take exactly the size asked
  for.
\<close>

theorem storage_square_where_rounded:
  "storage HeapArray_default = 0
   \<and> (\<forall>junk n allow_resize. storage (HeapArray_reserve junk n allow_resize) = n)
   \<and> (\<forall>junk n h h'. resize junk n True h = Inr h' \<longrightarrow> square_or_zero (storage h'))
   \<and> (\<forall>junk n h h'. resize junk n False h = Inr h' \<longrightarrow> storage h' = n)
   \<and> (\<forall>junk h h'. grow junk h = Inr h' \<longrightarrow> square_or_zero (storage h'))
   \<and> (\<forall>junk xs physical h'. HeapArray_range junk xs physical True = Inr h'
         \<longrightarrow> square_or_zero (storage h'))
   \<and> (\<forall>junk xs physical h'. HeapArray_range junk xs physical False = Inr h'
         \<longrightarrow> storage h' = (case physical of Some n \<Rightarrow> n | None \<Rightarrow> length xs))
   \<and> (\<forall>junk v h h'. insert_ha junk v h = Inr h'
         \<longrightarrow> storage h' = storage h \<or> square_or_zero (storage h'))
   \<and> (\<forall>v h b h'. remove_ha v h = Inr (b, h') \<longrightarrow> storage h' = storage h)
   \<and> (\<forall>junk h h'. copy_assign junk h = Inr h' \<longrightarrow> storage h' = storage h)
   \<and> (\<forall>h. storage (fst (move_assign h)) = storage h \<and> storage (snd (move_assign h)) = 0)"
proof (intro conjI allI impI)
  show "storage HeapArray_default = 0" by (simp add: HeapArray_default_def)
  show "storage (HeapArray_reserve junk n allow_resize) = n" for junk n allow_resize
    by (simp add: HeapArray_reserve_def)
  show "square_or_zero (storage h')" if "resize junk n True h = Inr h'" for junk n h h'
    using resize_storage[OF that] by (auto simp: square_or_zero_def)
  show "storage h' = n" if "resize junk n False h = Inr h'" for junk n h h'
    using resize_storage[OF that] by simp
  show "square_or_zero (storage h')" if "grow junk h = Inr h'" for junk h h'
    using that by (rule grow_storage)
  show "square_or_zero (storage h')" if "HeapArray_range junk xs physical True = Inr h'"
    for junk xs physical h'
    using HeapArray_range_storage[OF that] by (auto simp: square_or_zero_def Let_def)
  show "storage h' = (case physical of Some n \<Rightarrow> n | None \<Rightarrow> length xs)"
    if "HeapArray_range junk xs physical False = Inr h'" for junk xs physical h'
    using HeapArray_range_storage[OF that] by (simp add: Let_def)
  show "storage h' = storage h \<or> square_or_zero (storage h')"
    if "insert_ha junk v h = Inr h'" for junk v h h'
    using that by (rule insert_ha_storage)
  show "storage h' = storage h" if "remove_ha v h = Inr (b, h')" for v h b h'
    using that by (rule remove_ha_storage)
  show "storage h' = storage h" if "copy_assign junk h = Inr h'" for junk h h'
    using that by (auto simp: copy_assign_def split: if_splits)
  show "storage (fst (move_assign h)) = storage h" for h by (simp add: move_assign_def)
  show "storage (snd (move_assign h)) = 0" for h by (simp add: move_assign_def)
qed


theorem storage_square_where_rounded_witness:
  "grow zero_junk HeapArray_default
     = Inr \<lparr>storage = 4, count = 0, fixed = False, a = [0, 0, 0, 0]\<rparr>
   \<and> square_or_zero (storage \<lparr>storage = 4, count = 0, fixed = False, a = [0, 0, 0, 0]\<rparr>)
   \<and> remove_ha 30 \<lparr>storage = 4, count = 4, fixed = False, a = [10, 20, 40, 30]\<rparr>
       = Inr (True, \<lparr>storage = 4, count = 3, fixed = False, a = [10, 20, 40, 30]\<rparr>)
   \<and> storage \<lparr>storage = 4, count = 3, fixed = False, a = [10, 20, 40, 30]\<rparr>
       = storage \<lparr>storage = 4, count = 4, fixed = False, a = [10, 20, 40, 30]\<rparr>"
proof -
  have g: "grow zero_junk HeapArray_default
             = Inr \<lparr>storage = 4, count = 0, fixed = False, a = [0, 0, 0, 0]\<rparr>"
    by code_simp
  note t = storage_square_where_rounded
  from t [THEN conjunct2, THEN conjunct2, THEN conjunct2, THEN conjunct2, THEN conjunct1,
        rule_format, OF g]
    t [THEN conjunct2, THEN conjunct2, THEN conjunct2, THEN conjunct2, THEN conjunct2,
        THEN conjunct2, THEN conjunct2, THEN conjunct2, THEN conjunct1, rule_format,
        OF run_remove_30]
    g run_remove_30
  show ?thesis by simp
qed

text \<open>
  C8, as the specification states it, fails: a container reserved with two slots has a
  storage of 2.
\<close>

theorem reserve_two_not_square:
  "\<not> square_or_zero (storage (HeapArray_reserve zero_junk 2 True))"
  by (simp add: HeapArray_reserve_def two_not_square)

section \<open>The min-max heap invariant\<close>

text \<open>
  The invariant of the specification on the first \<open>n\<close> slots of a buffer: the root is on
  a min level, the levels alternate, a node on a min level is at most each of its
  descendants and a node on a max level is at least each of them. \<open>level i\<close> is the
  depth of the node \<open>i\<close>, the number of parent steps to the root.
\<close>

lemma parent_less: "0 < j \<Longrightarrow> parent j < j"
  by (simp add: parent_def)

function level :: "nat \<Rightarrow> nat" where
  "level i = (if i = 0 then 0 else Suc (level (parent i)))"
  by pat_completeness auto
termination
  by (relation "measure id") (auto simp: parent_less)

declare level.simps [simp del]

definition on_min_level :: "nat \<Rightarrow> bool" where
  "on_min_level i = even (level i)"

function descendant :: "nat \<Rightarrow> nat \<Rightarrow> bool" where
  "descendant i j = (if j = 0 then False else parent j = i \<or> descendant i (parent j))"
  by pat_completeness auto
termination
  by (relation "measure snd") (auto simp: parent_less)

declare descendant.simps [simp del]

definition ordered_pair :: "int list \<Rightarrow> nat \<Rightarrow> nat \<Rightarrow> bool" where
  "ordered_pair h i j = (if on_min_level i then h ! i \<le> h ! j else h ! j \<le> h ! i)"

definition mmheap_inv :: "int list \<Rightarrow> nat \<Rightarrow> bool" where
  "mmheap_inv h n =
     (n \<le> length h \<and> (\<forall>i<n. \<forall>j<n. descendant i j \<longrightarrow> ordered_pair h i j))"

text \<open>The invariant with the node \<open>k\<close> left out as the upper end of a pair: the state
  of the heap while the value at \<open>k\<close> is being sifted down.\<close>

definition hole_inv :: "int list \<Rightarrow> nat \<Rightarrow> nat \<Rightarrow> bool" where
  "hole_inv h n k =
     (n \<le> length h \<and> (\<forall>i<n. \<forall>j<n. descendant i j \<longrightarrow> i \<noteq> k \<longrightarrow> ordered_pair h i j))"

lemma level_0 [simp]: "level 0 = 0"
  by (simp add: level.simps)

lemma level_pos: "0 < j \<Longrightarrow> level j = Suc (level (parent j))"
  by (subst level.simps) simp

lemma on_min_level_0 [simp]: "on_min_level 0"
  by (simp add: on_min_level_def)

lemma on_min_level_parent: "0 < j \<Longrightarrow> on_min_level j = (\<not> on_min_level (parent j))"
  by (simp add: on_min_level_def level_pos)

lemma descendant_0 [simp]: "\<not> descendant i 0"
  by (simp add: descendant.simps)

lemma descendant_iff: "descendant i j \<longleftrightarrow> 0 < j \<and> (parent j = i \<or> descendant i (parent j))"
  by (subst descendant.simps) auto

lemma descendant_less: "descendant i j \<Longrightarrow> i < j"
proof (induction i j rule: descendant.induct)
  case (1 i j)
  from "1.prems" have j: "0 < j" and d: "parent j = i \<or> descendant i (parent j)"
    by (auto simp: descendant_iff[of i j])
  from d show ?case
  proof
    assume "parent j = i"
    with j show ?thesis using parent_less by auto
  next
    assume a: "descendant i (parent j)"
    with "1.IH" j have "i < parent j" by (cases "parent j = i") auto
    with parent_less[OF j] show ?thesis by simp
  qed
qed

lemma descendant_parent: "0 < j \<Longrightarrow> descendant (parent j) j"
  by (subst descendant.simps) simp

lemma descendant_trans: "descendant i j \<Longrightarrow> descendant j l \<Longrightarrow> descendant i l"
proof (induction j l rule: descendant.induct)
  case (1 j l)
  from "1.prems"(2) have l: "0 < l" and d: "parent l = j \<or> descendant j (parent l)"
    by (auto simp: descendant_iff[of j l])
  from d show ?case
  proof
    assume "parent l = j"
    with "1.prems"(1) l show ?thesis by (subst descendant.simps) auto
  next
    assume a: "descendant j (parent l)"
    then have "parent l \<noteq> j" using descendant_less by blast
    with "1.IH" l "1.prems"(1) a have "descendant i (parent l)" by simp
    with l show ?thesis by (subst descendant.simps) simp
  qed
qed

lemma ancestor_of_child: "descendant i c \<Longrightarrow> i = parent c \<or> descendant i (parent c)"
  by (auto simp: descendant_iff[of i c])

lemma parent_child [simp]: "parent (2 * k + 1) = k" "parent (2 * k + 2) = k"
  "parent (Suc (2 * k)) = k" "parent (Suc (Suc (2 * k))) = k"
  by (simp_all add: parent_def)

lemma child_cases: "0 < c \<Longrightarrow> parent c = k \<longleftrightarrow> c = 2 * k + 1 \<or> c = 2 * k + 2"
  unfolding parent_def by arith

lemma gchild_cases:
  "2 < c \<Longrightarrow> gparent c = k \<longleftrightarrow> c = 4 * k + 3 \<or> c = 4 * k + 4 \<or> c = 4 * k + 5 \<or> c = 4 * k + 6"
  unfolding gparent_def parent_def by arith

lemma descendant_split:
  "descendant k j \<Longrightarrow>
     parent j = k \<or> (2 < j \<and> gparent j = k) \<or> (\<exists>g. 2 < g \<and> gparent g = k \<and> descendant g j)"
proof (induction k j rule: descendant.induct)
  case (1 k j)
  from "1.prems" have j: "0 < j" and d: "parent j = k \<or> descendant k (parent j)"
    by (auto simp: descendant_iff[of k j])
  from d show ?case
  proof
    assume "parent j = k" then show ?thesis by simp
  next
    assume a: "descendant k (parent j)"
    then have ne: "parent j \<noteq> k" and pj: "0 < parent j" using descendant_less by fastforce+
    from pj have j2: "2 < j" by (auto simp: parent_def)
    from "1.IH" j ne a have
      "parent (parent j) = k \<or> (2 < parent j \<and> gparent (parent j) = k)
         \<or> (\<exists>g. 2 < g \<and> gparent g = k \<and> descendant g (parent j))" by simp
    then show ?thesis
    proof (elim disjE conjE exE)
      assume "parent (parent j) = k"
      with j2 show ?thesis by (simp add: gparent_def)
    next
      assume "2 < parent j" "gparent (parent j) = k"
      with descendant_parent[OF j] show ?thesis by blast
    next
      fix g assume "2 < g" "gparent g = k" "descendant g (parent j)"
      with descendant_trans[OF _ descendant_parent[OF j]] show ?thesis by blast
    qed
  qed
qed

section \<open>The primitives on accesses inside the buffer\<close>

lemma bindE_Inr [simp]: "bindE (Inr x) f = f x"
  by (simp add: bindE_def)

lemma bindE_Inl [simp]: "bindE (Inl e) f = Inl e"
  by (simp add: bindE_def)

lemma rd_ok: "i < length h \<Longrightarrow> rd h i = Inr (h ! i)"
  by (simp add: rd_def)

lemma wr_ok: "i < length h \<Longrightarrow> wr h i v = Inr (h[i := v])"
  by (simp add: wr_def)

lemma lt_ok: "i < length h \<Longrightarrow> j < length h \<Longrightarrow> lt h i j = Inr (h ! i < h ! j)"
  by (simp add: lt_def rd_ok)

lemma gt_ok: "i < length h \<Longrightarrow> j < length h \<Longrightarrow> gt h i j = Inr (h ! i > h ! j)"
  by (simp add: gt_def rd_ok)

definition swp :: "int list \<Rightarrow> nat \<Rightarrow> nat \<Rightarrow> int list" where
  "swp h i j = h[i := h ! j, j := h ! i]"

lemma swap_ok: "i < length h \<Longrightarrow> j < length h \<Longrightarrow> swap h i j = Inr (swp h i j)"
  by (simp add: swap_def rd_ok wr_ok swp_def)

lemma length_swp [simp]: "length (swp h i j) = length h"
  by (simp add: swp_def)

lemma swp_nth:
  "i < length h \<Longrightarrow> j < length h \<Longrightarrow>
     swp h i j ! l = (if l = j then h ! i else if l = i then h ! j else h ! l)"
  by (auto simp: swp_def nth_list_update)

definition pick_gt :: "int list \<Rightarrow> nat \<Rightarrow> nat \<Rightarrow> nat \<Rightarrow> nat" where
  "pick_gt h r c m = (if c \<le> r \<and> h ! c > h ! m then c else m)"

definition pick_lt :: "int list \<Rightarrow> nat \<Rightarrow> nat \<Rightarrow> nat \<Rightarrow> nat" where
  "pick_lt h r c m = (if c \<le> r \<and> h ! c < h ! m then c else m)"

lemma take_if_gt_ok:
  "m < length h \<Longrightarrow> r < length h \<Longrightarrow> take_if_gt h r c m = Inr (pick_gt h r c m)"
  by (simp add: take_if_gt_def pick_gt_def gt_ok)

lemma take_if_lt_ok:
  "m < length h \<Longrightarrow> r < length h \<Longrightarrow> take_if_lt h r c m = Inr (pick_lt h r c m)"
  by (simp add: take_if_lt_def pick_lt_def lt_ok)

lemma pick_gt_cases: "pick_gt h r c m = c \<or> pick_gt h r c m = m"
  and pick_gt_ge: "h ! m \<le> h ! pick_gt h r c m"
  and pick_gt_ge_new: "c \<le> r \<Longrightarrow> h ! c \<le> h ! pick_gt h r c m"
  and pick_gt_le: "m \<le> r \<Longrightarrow> pick_gt h r c m \<le> r"
  by (auto simp: pick_gt_def)

lemma pick_lt_cases: "pick_lt h r c m = c \<or> pick_lt h r c m = m"
  and pick_lt_ge: "h ! pick_lt h r c m \<le> h ! m"
  and pick_lt_ge_new: "c \<le> r \<Longrightarrow> h ! pick_lt h r c m \<le> h ! c"
  and pick_lt_le: "m \<le> r \<Longrightarrow> pick_lt h r c m \<le> r"
  by (auto simp: pick_lt_def)

text \<open>The index that \<^verbatim>\<open>max_child_or_gchild\<close> selects.\<close>

definition sel_max :: "int list \<Rightarrow> nat \<Rightarrow> nat \<Rightarrow> nat" where
  "sel_max h k r =
     (let mc = pick_gt h r (2 * k + 2) (2 * k + 1) in
      if 4 * k + 3 \<le> r
      then (let g = pick_gt h r (4 * k + 6) (pick_gt h r (4 * k + 5) (pick_gt h r (4 * k + 4) (4 * k + 3)))
            in if h ! g > h ! mc then g else mc)
      else mc)"

definition sel_min :: "int list \<Rightarrow> nat \<Rightarrow> nat \<Rightarrow> nat" where
  "sel_min h k r =
     (let mc = pick_lt h r (2 * k + 2) (2 * k + 1) in
      if 4 * k + 3 \<le> r
      then (let g = pick_lt h r (4 * k + 6) (pick_lt h r (4 * k + 5) (pick_lt h r (4 * k + 4) (4 * k + 3)))
            in if h ! g < h ! mc then g else mc)
      else mc)"

lemma max_child_ok:
  "left k \<le> r \<Longrightarrow> r < length h \<Longrightarrow>
     max_child h k r = Inr (True, pick_gt h r (2 * k + 2) (2 * k + 1))"
  by (simp add: max_child_def left_def right_def take_if_gt_ok)

lemma min_child_ok:
  "left k \<le> r \<Longrightarrow> r < length h \<Longrightarrow>
     min_child h k r = Inr (True, pick_lt h r (2 * k + 2) (2 * k + 1))"
  by (simp add: min_child_def left_def right_def take_if_lt_ok)

lemma max_gchild_ok:
  assumes "4 * k + 3 \<le> r" "r < length h"
  shows "max_gchild h k r =
     Inr (True, pick_gt h r (4 * k + 6) (pick_gt h r (4 * k + 5) (pick_gt h r (4 * k + 4) (4 * k + 3))))"
proof -
  let ?g1 = "pick_gt h r (4 * k + 4) (4 * k + 3)"
  let ?g2 = "pick_gt h r (4 * k + 5) ?g1"
  from assms have b0: "4 * k + 3 < length h" by simp
  from assms have "?g1 \<le> r" by (simp add: pick_gt_le)
  with assms have b1: "?g1 < length h" by simp
  from \<open>?g1 \<le> r\<close> have "?g2 \<le> r" by (simp add: pick_gt_le)
  with assms have b2: "?g2 < length h" by simp
  have e: "left (left k) = 4 * k + 3" "right (left k) = 4 * k + 4"
    "left (right k) = 4 * k + 5" "right (right k) = 4 * k + 6"
    by (simp_all add: left_def right_def)
  show ?thesis
    using assms b0 b1 b2
    by (simp add: max_gchild_def Let_def e take_if_gt_ok)
qed

lemma min_gchild_ok:
  assumes "4 * k + 3 \<le> r" "r < length h"
  shows "min_gchild h k r =
     Inr (True, pick_lt h r (4 * k + 6) (pick_lt h r (4 * k + 5) (pick_lt h r (4 * k + 4) (4 * k + 3))))"
proof -
  let ?g1 = "pick_lt h r (4 * k + 4) (4 * k + 3)"
  let ?g2 = "pick_lt h r (4 * k + 5) ?g1"
  from assms have b0: "4 * k + 3 < length h" by simp
  from assms have "?g1 \<le> r" by (simp add: pick_lt_le)
  with assms have b1: "?g1 < length h" by simp
  from \<open>?g1 \<le> r\<close> have "?g2 \<le> r" by (simp add: pick_lt_le)
  with assms have b2: "?g2 < length h" by simp
  have e: "left (left k) = 4 * k + 3" "right (left k) = 4 * k + 4"
    "left (right k) = 4 * k + 5" "right (right k) = 4 * k + 6"
    by (simp_all add: left_def right_def)
  show ?thesis
    using assms b0 b1 b2
    by (simp add: min_gchild_def Let_def e take_if_lt_ok)
qed

lemma max_gchild_none: "\<not> 4 * k + 3 \<le> r \<Longrightarrow> max_gchild h k r = Inr (False, 0)"
  by (simp add: max_gchild_def Let_def left_def)

lemma min_gchild_none: "\<not> 4 * k + 3 \<le> r \<Longrightarrow> min_gchild h k r = Inr (False, 0)"
  by (simp add: min_gchild_def Let_def left_def)

lemma sel_max_props:
  assumes "2 * k + 1 \<le> r"
  shows "sel_max h k r \<le> r"
    and "sel_max h k r \<in> {2 * k + 1, 2 * k + 2, 4 * k + 3, 4 * k + 4, 4 * k + 5, 4 * k + 6}"
    and "\<And>c. c \<in> {2 * k + 1, 2 * k + 2, 4 * k + 3, 4 * k + 4, 4 * k + 5, 4 * k + 6} \<Longrightarrow> c \<le> r
           \<Longrightarrow> h ! c \<le> h ! sel_max h k r"
proof -
  let ?mc = "pick_gt h r (2 * k + 2) (2 * k + 1)"
  let ?g1 = "pick_gt h r (4 * k + 4) (4 * k + 3)"
  let ?g2 = "pick_gt h r (4 * k + 5) ?g1"
  let ?g3 = "pick_gt h r (4 * k + 6) ?g2"
  have mc: "?mc \<le> r" "?mc = 2 * k + 2 \<or> ?mc = 2 * k + 1" "h ! (2 * k + 1) \<le> h ! ?mc"
    "2 * k + 2 \<le> r \<Longrightarrow> h ! (2 * k + 2) \<le> h ! ?mc"
    using assms pick_gt_le[of "2 * k + 1" r h "2 * k + 2"] pick_gt_cases[of h r "2 * k + 2" "2 * k + 1"]
      pick_gt_ge[of h "2 * k + 1" r "2 * k + 2"] pick_gt_ge_new[of "2 * k + 2" r h "2 * k + 1"]
    by auto
  show "sel_max h k r \<le> r"
  proof (cases "4 * k + 3 \<le> r")
    case True
    then have "?g1 \<le> r" by (simp add: pick_gt_le)
    then have "?g2 \<le> r" by (simp add: pick_gt_le)
    then have "?g3 \<le> r" by (simp add: pick_gt_le)
    with mc True show ?thesis by (simp add: sel_max_def Let_def)
  next
    case False
    with mc show ?thesis by (simp add: sel_max_def Let_def)
  qed
  have g: "?g3 \<in> {4 * k + 3, 4 * k + 4, 4 * k + 5, 4 * k + 6}"
    using pick_gt_cases[of h r "4 * k + 4" "4 * k + 3"]
      pick_gt_cases[of h r "4 * k + 5" ?g1] pick_gt_cases[of h r "4 * k + 6" ?g2]
    by auto
  show "sel_max h k r \<in> {2 * k + 1, 2 * k + 2, 4 * k + 3, 4 * k + 4, 4 * k + 5, 4 * k + 6}"
    using g mc(2) by (auto simp: sel_max_def Let_def)
  fix c assume c: "c \<in> {2 * k + 1, 2 * k + 2, 4 * k + 3, 4 * k + 4, 4 * k + 5, 4 * k + 6}" "c \<le> r"
  have g1: "h ! (4 * k + 3) \<le> h ! ?g1" "4 * k + 4 \<le> r \<Longrightarrow> h ! (4 * k + 4) \<le> h ! ?g1"
    by (rule pick_gt_ge pick_gt_ge_new, assumption?)+
  have g2: "h ! ?g1 \<le> h ! ?g2" "4 * k + 5 \<le> r \<Longrightarrow> h ! (4 * k + 5) \<le> h ! ?g2"
    by (rule pick_gt_ge pick_gt_ge_new, assumption?)+
  have g3: "h ! ?g2 \<le> h ! ?g3" "4 * k + 6 \<le> r \<Longrightarrow> h ! (4 * k + 6) \<le> h ! ?g3"
    by (rule pick_gt_ge pick_gt_ge_new, assumption?)+
  have gall: "c \<in> {4 * k + 3, 4 * k + 4, 4 * k + 5, 4 * k + 6} \<Longrightarrow> h ! c \<le> h ! ?g3"
    using c(2) g1 g2 g3 by auto
  have s: "h ! ?mc \<le> h ! sel_max h k r" "4 * k + 3 \<le> r \<Longrightarrow> h ! ?g3 \<le> h ! sel_max h k r"
    by (auto simp: sel_max_def Let_def)
  show "h ! c \<le> h ! sel_max h k r"
  proof (cases "c \<in> {2 * k + 1, 2 * k + 2}")
    case True
    with mc(3,4) c(2) have "h ! c \<le> h ! ?mc" by auto
    with s(1) show ?thesis by simp
  next
    case False
    with c have cg: "c \<in> {4 * k + 3, 4 * k + 4, 4 * k + 5, 4 * k + 6}" by auto
    with c(2) have "4 * k + 3 \<le> r" by auto
    with gall[OF cg] s(2) show ?thesis by simp
  qed
qed

lemma max_child_or_gchild_ok:
  assumes "left k \<le> r" "r < length h"
  shows "max_child_or_gchild h k r = Inr (True, sel_max h k r)"
proof -
  let ?mc = "pick_gt h r (2 * k + 2) (2 * k + 1)"
  let ?g3 = "pick_gt h r (4 * k + 6) (pick_gt h r (4 * k + 5) (pick_gt h r (4 * k + 4) (4 * k + 3)))"
  from assms have k: "2 * k + 1 \<le> r" by (simp add: left_def)
  then have "?mc \<le> r" by (simp add: pick_gt_le)
  with assms have mcb: "?mc < length h" by simp
  show ?thesis
  proof (cases "4 * k + 3 \<le> r")
    case True
    then have "?g3 \<le> r" by (simp add: pick_gt_le)
    with assms have "?g3 < length h" by simp
    with True assms mcb show ?thesis
      by (simp add: max_child_or_gchild_def max_child_ok max_gchild_ok sel_max_def Let_def gt_ok)
  next
    case False
    with assms show ?thesis
      by (simp add: max_child_or_gchild_def max_child_ok max_gchild_none sel_max_def Let_def)
  qed
qed

section \<open>Sifting a maximum down restores the invariant\<close>

lemma descendant_ge_left: "descendant k j \<Longrightarrow> left k \<le> j"
proof (induction k j rule: descendant.induct)
  case (1 k j)
  from "1.prems" have j: "0 < j" and d: "parent j = k \<or> descendant k (parent j)"
    by (auto simp: descendant_iff[of k j])
  from d show ?case
  proof
    assume "parent j = k"
    with j show ?thesis using child_cases[of j k] by (auto simp: left_def)
  next
    assume a: "descendant k (parent j)"
    then have "parent j \<noteq> k" using descendant_less by blast
    with "1.IH" j a have "left k \<le> parent j" by simp
    with parent_less[OF j] show ?thesis by simp
  qed
qed

lemma hole_inv_no_children:
  assumes "hole_inv h n k" "n \<le> left k"
  shows "mmheap_inv h n"
proof -
  have "i \<noteq> k" if "j < n" "descendant i j" for i j
    using descendant_ge_left[OF that(2)] that(1) assms(2) by auto
  with assms(1) show ?thesis by (auto simp: hole_inv_def mmheap_inv_def)
qed

lemma hole_inv_settled:
  assumes hi: "hole_inv h n k" and kmax: "\<not> on_min_level k"
    and F: "\<And>j. j < n \<Longrightarrow> descendant k j \<Longrightarrow> h ! j \<le> h ! k"
  shows "mmheap_inv h n"
proof -
  have "ordered_pair h i j" if "i < n" "j < n" "descendant i j" for i j
  proof (cases "i = k")
    case True
    with F that kmax show ?thesis by (simp add: ordered_pair_def)
  next
    case False
    with hi that show ?thesis by (simp add: hole_inv_def)
  qed
  with hi show ?thesis by (simp add: hole_inv_def mmheap_inv_def)
qed

lemma below_selected:
  assumes hi: "hole_inv h n k" and kmax: "\<not> on_min_level k" and n: "0 < n"
    and lk: "left k \<le> n - 1" and j: "j < n" "descendant k j"
  shows "h ! j \<le> h ! sel_max h k (n - 1)"
proof -
  let ?m = "sel_max h k (n - 1)"
  from lk have k1: "2 * k + 1 \<le> n - 1" by (simp add: left_def)
  have sel: "h ! c \<le> h ! ?m"
    if "c \<in> {2 * k + 1, 2 * k + 2, 4 * k + 3, 4 * k + 4, 4 * k + 5, 4 * k + 6}" "c < n" for c
    using sel_max_props(3)[OF k1 that(1)] that(2) by simp
  from j(2) have j0: "0 < j" using descendant_less by fastforce
  from descendant_split[OF j(2)] show ?thesis
  proof (elim disjE conjE exE)
    assume "parent j = k"
    with j0 have "j \<in> {2 * k + 1, 2 * k + 2}" using child_cases[of j k] by auto
    with sel j(1) show ?thesis by auto
  next
    assume "2 < j" "gparent j = k"
    then have "j \<in> {4 * k + 3, 4 * k + 4, 4 * k + 5, 4 * k + 6}" using gchild_cases[of j k] by auto
    with sel j(1) show ?thesis by auto
  next
    fix g assume g: "2 < g" "gparent g = k" "descendant g j"
    then have gc: "g \<in> {4 * k + 3, 4 * k + 4, 4 * k + 5, 4 * k + 6}" using gchild_cases[of g k] by auto
    from g(3) have gj: "g < j" by (rule descendant_less)
    with j(1) have gn: "g < n" by simp
    from g(1) have "0 < g" "0 < parent g" by (auto simp: parent_def)
    with g(2) kmax have gmax: "\<not> on_min_level g"
      using on_min_level_parent[of g] on_min_level_parent[of "parent g"] by (simp add: gparent_def)
    from gc have "g \<noteq> k" by auto
    with hi gn j(1) g(3) have "ordered_pair h g j" by (auto simp: hole_inv_def)
    with gmax have "h ! j \<le> h ! g" by (simp add: ordered_pair_def)
    also from sel gc gn have "h ! g \<le> h ! ?m" by blast
    finally show ?thesis .
  qed
qed

lemma swap_child_inv:
  assumes hi: "hole_inv h n k" and kn: "k < n" and kmax: "\<not> on_min_level k"
    and mn: "m < n" and m0: "0 < m" and pm: "parent m = k"
    and F1: "\<And>j. j < n \<Longrightarrow> descendant k j \<Longrightarrow> h ! j \<le> h ! m"
    and gt: "h ! k < h ! m"
  shows "mmheap_inv (swp h m k) n"
proof -
  from hi have len: "n \<le> length h"
    and pairs: "\<And>i j. i < n \<Longrightarrow> j < n \<Longrightarrow> descendant i j \<Longrightarrow> i \<noteq> k \<Longrightarrow> ordered_pair h i j"
    by (auto simp: hole_inv_def)
  have km: "k < m" using parent_less[OF m0] pm by simp
  have dkm: "descendant k m" using descendant_parent[OF m0] pm by simp
  have mmin: "on_min_level m" using on_min_level_parent[OF m0] pm kmax by simp
  let ?h = "swp h m k"
  have nth: "?h ! l = (if l = k then h ! m else if l = m then h ! k else h ! l)" if "l < n" for l
    using len kn mn that by (simp add: swp_nth)
  have "ordered_pair ?h i j" if ij: "i < n" "j < n" "descendant i j" for i j
  proof -
    have ilj: "i < j" using descendant_less[OF ij(3)] .
    consider "i = k" | "i = m" | "i \<noteq> k" "i \<noteq> m" by blast
    then show ?thesis
    proof cases
      case 1
      show ?thesis
      proof (cases "j = m")
        case True
        with 1 kmax gt nth[OF kn] nth[OF mn] km show ?thesis by (simp add: ordered_pair_def)
      next
        case False
        with 1 ilj have "?h ! j = h ! j" using nth[OF ij(2)] by simp
        moreover have "h ! j \<le> h ! m" using F1 ij 1 by simp
        ultimately show ?thesis using 1 kmax nth[OF kn] by (simp add: ordered_pair_def)
      qed
    next
      case 2
      then have "j \<noteq> k" "j \<noteq> m" using ilj km by auto
      then have "?h ! j = h ! j" using nth[OF ij(2)] by simp
      moreover have "ordered_pair h m j" using pairs[OF mn ij(2)] ij(3) 2 km by auto
      ultimately show ?thesis using 2 mmin gt nth[OF mn] km by (auto simp: ordered_pair_def)
    next
      case 3
      then have hi': "?h ! i = h ! i" using nth[OF ij(1)] by simp
      show ?thesis
      proof (cases "j = k")
        case True
        then have "descendant i m" using descendant_trans[OF _ dkm] ij(3) by simp
        then have "ordered_pair h i m" using pairs[OF ij(1) mn] 3 by simp
        then show ?thesis using True hi' nth[OF kn] by (simp add: ordered_pair_def)
      next
        case jk: False
        show ?thesis
        proof (cases "j = m")
          case True
          with ij(3) 3 pm have "descendant i k" using ancestor_of_child[of i m] by auto
          then have "ordered_pair h i k" using pairs[OF ij(1) kn] 3 by simp
          then show ?thesis using True hi' nth[OF mn] km by (simp add: ordered_pair_def)
        next
          case False
          then have "?h ! j = h ! j" using jk nth[OF ij(2)] by simp
          then show ?thesis using pairs[OF ij] 3 hi' by (simp add: ordered_pair_def)
        qed
      qed
    qed
  qed
  then show ?thesis using len by (simp add: mmheap_inv_def)
qed

lemma swap_gchild_hole:
  assumes hi: "hole_inv h n k" and kn: "k < n" and kmax: "\<not> on_min_level k"
    and mn: "m < n" and m2: "2 < m" and gm: "gparent m = k"
    and F1: "\<And>j. j < n \<Longrightarrow> descendant k j \<Longrightarrow> h ! j \<le> h ! m"
    and gt: "h ! k < h ! m"
  shows "hole_inv (if swp h m k ! m < swp h m k ! parent m
                   then swp (swp h m k) m (parent m) else swp h m k) n m"
    (is "hole_inv ?h2 n m")
proof -
  from hi have len: "n \<le> length h"
    and pairs: "\<And>i j. i < n \<Longrightarrow> j < n \<Longrightarrow> descendant i j \<Longrightarrow> i \<noteq> k \<Longrightarrow> ordered_pair h i j"
    by (auto simp: hole_inv_def)
  define p where "p = parent m"
  from m2 have m0: "0 < m" and p0: "0 < p" by (auto simp: p_def parent_def)
  from gm have pp: "parent p = k" by (simp add: p_def gparent_def)
  have pm: "p < m" using parent_less[OF m0] by (simp add: p_def)
  have kp: "k < p" using parent_less[OF p0] pp by simp
  have pn: "p < n" using pm mn by simp
  have dpm: "descendant p m" using descendant_parent[OF m0] by (simp add: p_def)
  have dkp: "descendant k p" using descendant_parent[OF p0] pp by simp
  have dkm: "descendant k m" using descendant_trans[OF dkp dpm] .
  have pmin: "on_min_level p" using on_min_level_parent[OF p0] pp kmax by simp
  have mmax: "\<not> on_min_level m" using on_min_level_parent[OF m0] pmin by (simp add: p_def)
  have qy: "h ! p \<le> h ! m" using F1[OF pn dkp] .
  have h1: "swp h m k ! l = (if l = k then h ! m else if l = m then h ! k else h ! l)"
    if "l < n" for l
    using len kn mn that by (simp add: swp_nth)
  have nth: "?h2 ! l = (if l = k then h ! m else if l = p then min (h ! k) (h ! p)
                        else if l = m then max (h ! k) (h ! p) else h ! l)" if "l < n" for l
  proof (cases "h ! k < h ! p")
    case True
    then have "?h2 = swp (swp h m k) m p"
      using h1[OF mn] h1[OF pn] pm kp by (simp add: p_def)
    then show ?thesis
      using True that len mn pn kn pm kp h1 by (auto simp: swp_nth)
  next
    case False
    then have "?h2 = swp h m k"
      using h1[OF mn] h1[OF pn] pm kp by (simp add: p_def)
    then show ?thesis
      using False that pm kp h1 by auto
  qed
  have "ordered_pair ?h2 i j" if ij: "i < n" "j < n" "descendant i j" and im: "i \<noteq> m" for i j
  proof -
    have ilj: "i < j" using descendant_less[OF ij(3)] .
    consider (ik) "i = k" | (ip) "i = p" | (io) "i \<noteq> k" "i \<noteq> p" by blast
    then show ?thesis
    proof cases
      case ik
      have "?h2 ! j \<le> h ! m"
      proof -
        consider (jp) "j = p" | (jm) "j = m" | (jo) "j \<noteq> p" "j \<noteq> m" by blast
        then show ?thesis
        proof cases
          case jp then show ?thesis using nth[OF pn] kp gt by auto
        next
          case jm then show ?thesis using nth[OF mn] kp pm gt qy by auto
        next
          case jo
          with ilj ik have "?h2 ! j = h ! j" using nth[OF ij(2)] by simp
          then show ?thesis using F1[OF ij(2)] ij(3) ik by simp
        qed
      qed
      then show ?thesis using ik kmax nth[OF kn] by (simp add: ordered_pair_def)
    next
      case ip
      have "min (h ! k) (h ! p) \<le> ?h2 ! j"
      proof (cases "j = m")
        case True then show ?thesis using nth[OF mn] kp pm by auto
      next
        case False
        with ilj ip kp have "?h2 ! j = h ! j" using nth[OF ij(2)] by simp
        moreover have "ordered_pair h p j" using pairs[OF pn ij(2)] ij(3) ip kp by auto
        ultimately show ?thesis using pmin by (auto simp: ordered_pair_def)
      qed
      then show ?thesis using ip pmin nth[OF pn] kp by (simp add: ordered_pair_def)
    next
      case io
      with im have hi': "?h2 ! i = h ! i" using nth[OF ij(1)] by simp
      consider (jk) "j = k" | (jp) "j = p" | (jm) "j = m"
        | (jo) "j \<noteq> k" "j \<noteq> p" "j \<noteq> m" by blast
      then show ?thesis
      proof cases
        case jk
        then have "descendant i m" using descendant_trans[OF _ dkm] ij(3) by simp
        then have "ordered_pair h i m" using pairs[OF ij(1) mn] io by simp
        then show ?thesis using jk hi' nth[OF kn] by (simp add: ordered_pair_def)
      next
        case jp
        with ij(3) io pp have dik: "descendant i k" using ancestor_of_child[of i p] by auto
        have "ordered_pair h i k" using pairs[OF ij(1) kn dik] io by simp
        moreover have "ordered_pair h i p" using pairs[OF ij(1) pn] ij(3) jp io by simp
        ultimately show ?thesis using jp hi' nth[OF pn] kp by (auto simp: ordered_pair_def)
      next
        case jm
        with ij(3) io have dip: "descendant i p" using ancestor_of_child[of i m] by (auto simp: p_def)
        with io pp have dik: "descendant i k" using ancestor_of_child[of i p] by auto
        have "ordered_pair h i k" using pairs[OF ij(1) kn dik] io by simp
        moreover have "ordered_pair h i p" using pairs[OF ij(1) pn dip] io by simp
        ultimately show ?thesis using jm hi' nth[OF mn] kp pm by (auto simp: ordered_pair_def)
      next
        case jo
        then have "?h2 ! j = h ! j" using nth[OF ij(2)] by simp
        then show ?thesis using pairs[OF ij] io hi' by (simp add: ordered_pair_def)
      qed
    qed
  qed
  moreover have "length ?h2 = length h" by simp
  ultimately show ?thesis using len unfolding hole_inv_def by auto
qed

lemma sift_down_max_unfold:
  assumes "left k \<le> r" "r < length h"
  shows "mmheap_sift_down_max h k r =
    (if child k (sel_max h k r)
     then Inr (if h ! sel_max h k r > h ! k then swp h (sel_max h k r) k else h)
     else if h ! sel_max h k r > h ! k then
        mmheap_sift_down_max
          (if swp h (sel_max h k r) k ! sel_max h k r < swp h (sel_max h k r) k ! parent (sel_max h k r)
           then swp (swp h (sel_max h k r) k) (sel_max h k r) (parent (sel_max h k r))
           else swp h (sel_max h k r) k)
          (sel_max h k r) r
     else Inr h)"
proof -
  let ?m = "sel_max h k r"
  from assms have k1: "2 * k + 1 \<le> r" by (simp add: left_def)
  from sel_max_props(1)[OF k1, of h] assms have mb: "?m < length h" by simp
  from k1 assms have kb: "k < length h" by simp
  have "parent ?m \<le> ?m" by (simp add: parent_def)
  with mb have pb: "parent ?m < length h" by simp
  show ?thesis
    by (subst mmheap_sift_down_max.simps)
       (simp add: assms max_child_or_gchild_ok gt_ok lt_ok swap_ok mb kb pb)
qed

lemma sift_down_max_correct:
  assumes "hole_inv h n k" "k < n" "\<not> on_min_level k"
  shows "\<exists>h'. mmheap_sift_down_max h k (n - 1) = Inr h' \<and> mmheap_inv h' n"
  using assms
proof (induction "n - k" arbitrary: h k rule: less_induct)
  case less
  note hi = less.prems(1) and kn = less.prems(2) and kmax = less.prems(3)
  from hi have len: "n \<le> length h" by (simp add: hole_inv_def)
  from kn have n0: "0 < n" by simp
  with len have rb: "n - 1 < length h" by simp
  show ?case
  proof (cases "left k \<le> n - 1")
    case False
    then have "mmheap_sift_down_max h k (n - 1) = Inr h"
      by (subst mmheap_sift_down_max.simps) simp
    moreover from False n0 have "n \<le> left k" by simp
    then have "mmheap_inv h n" using hole_inv_no_children[OF hi] by simp
    ultimately show ?thesis by simp
  next
    case True
    let ?m = "sel_max h k (n - 1)"
    from True have k1: "2 * k + 1 \<le> n - 1" by (simp add: left_def)
    from sel_max_props(1)[OF k1, of h] n0 have mn: "?m < n" by simp
    note mset = sel_max_props(2)[OF k1, of h]
    have F1: "h ! j \<le> h ! ?m" if "j < n" "descendant k j" for j
      using below_selected[OF hi kmax n0 True that] .
    note unf = sift_down_max_unfold[OF True rb]
    show ?thesis
    proof (cases "h ! ?m > h ! k")
      case False
      then have F: "h ! j \<le> h ! k" if "j < n" "descendant k j" for j
        using F1[OF that] by simp
      have "mmheap_inv h n" using hole_inv_settled[OF hi kmax F] .
      moreover from False have "mmheap_sift_down_max h k (n - 1) = Inr h"
        by (subst unf) simp
      ultimately show ?thesis by simp
    next
      case gt: True
      show ?thesis
      proof (cases "child k ?m")
        case True
        then have "0 < ?m" "parent ?m = k" by (auto simp: child_def left_def right_def)
        from swap_child_inv[OF hi kn kmax mn this F1] gt
        have "mmheap_inv (swp h ?m k) n" by simp
        moreover from True gt have "mmheap_sift_down_max h k (n - 1) = Inr (swp h ?m k)"
          by (subst unf) simp
        ultimately show ?thesis by simp
      next
        case False
        with mset have mg: "?m \<in> {4 * k + 3, 4 * k + 4, 4 * k + 5, 4 * k + 6}"
          by (auto simp: child_def left_def right_def)
        then have m2: "2 < ?m" by auto
        with mg have gm: "gparent ?m = k" using gchild_cases[of ?m k] by simp
        let ?h2 = "if swp h ?m k ! ?m < swp h ?m k ! parent ?m
                   then swp (swp h ?m k) ?m (parent ?m) else swp h ?m k"
        from swap_gchild_hole[OF hi kn kmax mn m2 gm F1] gt
        have hi2: "hole_inv ?h2 n ?m" by simp
        from m2 have "0 < ?m" "0 < parent ?m" by (auto simp: parent_def)
        with gm kmax have mmax: "\<not> on_min_level ?m"
          using on_min_level_parent[of ?m] on_min_level_parent[of "parent ?m"]
          by (simp add: gparent_def)
        from mg have "k < ?m" by auto
        with mn have "n - ?m < n - k" by simp
        from less.hyps[OF this hi2 mn mmax]
        obtain h' where "mmheap_sift_down_max ?h2 ?m (n - 1) = Inr h'" "mmheap_inv h' n"
          by blast
        moreover from False gt
        have "mmheap_sift_down_max h k (n - 1) = mmheap_sift_down_max ?h2 ?m (n - 1)"
          by (subst unf) simp
        ultimately show ?thesis by simp
      qed
    qed
  qed
qed

section \<open>The maximum of a min-max heap\<close>

lemma below_first_level:
  "0 < j \<Longrightarrow> j = 1 \<or> j = 2 \<or> descendant 1 j \<or> descendant 2 j"
proof (induction j rule: less_induct)
  case (less j)
  show ?case
  proof (cases "j \<le> 2")
    case True
    with less.prems show ?thesis by auto
  next
    case False
    then have pj: "0 < parent j" by (auto simp: parent_def)
    from less.prems have dj: "descendant (parent j) j" by (rule descendant_parent)
    from less.IH[OF parent_less[OF less.prems] pj]
    show ?thesis using dj descendant_trans[OF _ dj] by auto
  qed
qed

lemma level_one_max: "\<not> on_min_level 1" "\<not> on_min_level 2"
  using on_min_level_parent[of 1] on_min_level_parent[of 2] by (simp_all add: parent_def)

lemma descendant_0_1: "descendant 0 1"
  using descendant_parent[of 1] by (simp add: parent_def)

lemma heap_max_at_first_level:
  assumes inv: "mmheap_inv h n" and n: "2 \<le> n"
  shows "Max (set (take n h)) = h ! pick_gt h (n - 1) 2 1"
proof -
  let ?m = "pick_gt h (n - 1) 2 1"
  from inv have len: "n \<le> length h"
    and pairs: "\<And>i j. i < n \<Longrightarrow> j < n \<Longrightarrow> descendant i j \<Longrightarrow> ordered_pair h i j"
    by (auto simp: mmheap_inv_def)
  from n have mle: "?m \<le> n - 1" by (simp add: pick_gt_le)
  with n have mn: "?m < n" by simp
  have c1: "h ! 1 \<le> h ! ?m" by (rule pick_gt_ge)
  have c2: "2 < n \<Longrightarrow> h ! 2 \<le> h ! ?m" using pick_gt_ge_new[of 2 "n - 1" h 1] by simp
  have le: "h ! j \<le> h ! ?m" if j: "j < n" for j
  proof (cases "j = 0")
    case True
    from pairs[of 0 1] n descendant_0_1 have "h ! 0 \<le> h ! 1" by (simp add: ordered_pair_def)
    with c1 True show ?thesis by simp
  next
    case False
    with below_first_level[of j] consider "j = 1" | "j = 2" | "descendant 1 j" | "descendant 2 j"
      by auto
    then show ?thesis
    proof cases
      case 1 with c1 show ?thesis by simp
    next
      case 2 with c2 j show ?thesis by simp
    next
      case 3
      with pairs[of 1 j] j n level_one_max have "h ! j \<le> h ! 1" by (simp add: ordered_pair_def)
      with c1 show ?thesis by simp
    next
      case 4
      then have "2 < j" by (rule descendant_less)
      with 4 pairs[of 2 j] j level_one_max have "h ! j \<le> h ! 2" by (simp add: ordered_pair_def)
      with c2 \<open>2 < j\<close> j show ?thesis by simp
    qed
  qed
  have s: "set (take n h) = (\<lambda>j. h ! j) ` {0..<n}"
    using nth_image[OF len] by simp
  show ?thesis
  proof (rule Max_eqI)
    show "finite (set (take n h))" by simp
    show "y \<le> h ! ?m" if "y \<in> set (take n h)" for y
      using that le by (auto simp: s)
    show "h ! ?m \<in> set (take n h)" using mn by (auto simp: s)
  qed
qed

section \<open>Replacing the maximum of a full heap\<close>

lemma replace_max_hole:
  assumes inv: "mmheap_inv h n" and mn: "m < n" and m12: "m = 1 \<or> m = 2"
  shows "hole_inv (if v < h ! 0 then swp (h[m := v]) 0 m else h[m := v]) n m"
    (is "hole_inv ?h2 n m")
proof -
  from inv have len: "n \<le> length h"
    and pairs: "\<And>i j. i < n \<Longrightarrow> j < n \<Longrightarrow> descendant i j \<Longrightarrow> ordered_pair h i j"
    by (auto simp: mmheap_inv_def)
  from m12 have m0: "0 < m" and pm: "parent m = 0" by (auto simp: parent_def)
  from mn m0 have n0: "0 < n" by simp
  from len n0 mn have b0: "0 < length h" and mb: "m < length h" by linarith+
  have nth: "?h2 ! l = (if l = 0 then min v (h ! 0) else if l = m then max v (h ! 0) else h ! l)"
    if "l < n" for l
  proof -
    from that len have lb: "l < length h" by simp
    show ?thesis
      using lb b0 mb m0 by (auto simp: swp_nth nth_list_update)
  qed
  have "ordered_pair ?h2 i j" if ij: "i < n" "j < n" "descendant i j" and im: "i \<noteq> m" for i j
  proof -
    have ilj: "i < j" using descendant_less[OF ij(3)] .
    show ?thesis
    proof (cases "i = 0")
      case True
      show ?thesis
      proof (cases "j = m")
        case True
        with \<open>i = 0\<close> m0 show ?thesis using nth[OF n0] nth[OF mn] by (simp add: ordered_pair_def)
      next
        case False
        with ilj True have "?h2 ! j = h ! j" using nth[OF ij(2)] by simp
        moreover from pairs[OF ij] True have "h ! 0 \<le> h ! j" by (simp add: ordered_pair_def)
        ultimately show ?thesis using True nth[OF n0] by (simp add: ordered_pair_def)
      qed
    next
      case False
      with im have hi: "?h2 ! i = h ! i" using nth[OF ij(1)] by simp
      have "j \<noteq> m"
      proof
        assume "j = m"
        with ij(3) pm have "i = 0 \<or> descendant i 0" using ancestor_of_child[of i m] by simp
        with False show False by simp
      qed
      with ilj have "?h2 ! j = h ! j" using nth[OF ij(2)] by simp
      with hi pairs[OF ij] show ?thesis by (simp add: ordered_pair_def)
    qed
  qed
  moreover have "length ?h2 = length h" by simp
  ultimately show ?thesis using len unfolding hole_inv_def by auto
qed

lemma min_level_1_2: "\<not> min_level 1" "\<not> min_level 2"
  by (simp_all add: min_level_def log_2_def tab64_def)

lemma mmheap_inv_single: "0 < length h \<Longrightarrow> mmheap_inv h 1"
  by (cases h) (simp_all add: mmheap_inv_def)

lemma ripple_add_full_unfold:
  assumes "1 < n" "max_child h 0 (n - 1) = Inr (True, m)" "m < length h" "0 < m"
    and "\<not> min_level m"
    and "mmheap_sift_down_max (if v < h ! 0 then swp (h[m := v]) 0 m else h[m := v]) m (n - 1)
           = Inr h'"
  shows "mm_heap_ripple_add v h n n = Inr ((True, h ! m), h', n)"
proof -
  from assms(3,4) have b0: "0 < length h" by linarith
  show ?thesis
  proof (cases "v < h ! 0")
    case True
    with assms b0 show ?thesis
      by (simp add: mm_heap_ripple_add_def rd_ok wr_ok swap_ok mmheap_sift_down_def)
  next
    case False
    with assms b0 show ?thesis
      by (simp add: mm_heap_ripple_add_def rd_ok wr_ok swap_ok mmheap_sift_down_def)
  qed
qed

section \<open>Evaluating the invariant\<close>

lemma mmheap_inv_code [code]:
  "mmheap_inv h n =
     (n \<le> length h \<and>
      list_all (\<lambda>i. list_all (\<lambda>j. descendant i j \<longrightarrow> ordered_pair h i j) [0..<n]) [0..<n])"
  by (auto simp: mmheap_inv_def list_all_iff)

section \<open>The level test of the code\<close>

text \<open>
  \<^verbatim>\<open>log_2\<close> smears the highest set bit over all lower bits, isolates it and looks its
  position up in a table; \<^verbatim>\<open>min_level\<close> takes the parity of that position for
  \<open>i + 1\<close>. For every index that a 64-bit \<^verbatim>\<open>size_t\<close> can hold with its successor this
  is the parity of the depth of the node, as the invariant has it.
\<close>

lemma smear_step:
  fixes x y :: "64 word"
  assumes "\<And>n. bit y n \<longleftrightarrow> (\<exists>j<w. bit x (n + j))"
  shows "bit (y OR drop_bit w y) n \<longleftrightarrow> (\<exists>j<2 * w. bit x (n + j))"
proof -
  have "bit (y OR drop_bit w y) n \<longleftrightarrow> bit y n \<or> bit y (w + n)"
    by (simp add: bit_or_iff bit_drop_bit_eq)
  also have "\<dots> \<longleftrightarrow> (\<exists>j<w. bit x (n + j)) \<or> (\<exists>j<w. bit x (w + n + j))"
    by (simp add: assms)
  also have "\<dots> \<longleftrightarrow> (\<exists>j<2 * w. bit x (n + j))"
  proof
    assume "(\<exists>j<w. bit x (n + j)) \<or> (\<exists>j<w. bit x (w + n + j))"
    then show "\<exists>j<2 * w. bit x (n + j)"
    proof
      assume "\<exists>j<w. bit x (n + j)"
      then obtain j where "j < w" "bit x (n + j)" by blast
      then show ?thesis by (intro exI[of _ j]) simp
    next
      assume "\<exists>j<w. bit x (w + n + j)"
      then obtain j where "j < w" "bit x (w + n + j)" by blast
      then show ?thesis by (intro exI[of _ "w + j"]) (simp add: ac_simps)
    qed
  next
    assume "\<exists>j<2 * w. bit x (n + j)"
    then obtain j where j: "j < 2 * w" "bit x (n + j)" by blast
    show "(\<exists>j<w. bit x (n + j)) \<or> (\<exists>j<w. bit x (w + n + j))"
    proof (cases "j < w")
      case True
      with j show ?thesis by blast
    next
      case False
      with j have "j - w < w" "bit x (w + n + (j - w))" by (simp_all add: ac_simps)
      then show ?thesis by blast
    qed
  qed
  finally show ?thesis .
qed

lemma table_lookup:
  "list_all (\<lambda>k. tab64 ! unat (drop_bit 58 ((2 ^ k :: 64 word) * 0x07EDD5E59A4E28C2)) = k) [0..<64]"
  by code_simp

lemma smeared_bits:
  fixes x :: "64 word"
  defines "i1 \<equiv> x OR drop_bit 1 x"
  defines "i2 \<equiv> i1 OR drop_bit 2 i1"
  defines "i3 \<equiv> i2 OR drop_bit 4 i2"
  defines "i4 \<equiv> i3 OR drop_bit 8 i3"
  defines "i5 \<equiv> i4 OR drop_bit 16 i4"
  defines "i6 \<equiv> i5 OR drop_bit 32 i5"
  shows "bit i6 n \<longleftrightarrow> (\<exists>j<64. bit x (n + j))"
proof -
  have s0: "bit x n \<longleftrightarrow> (\<exists>j<1. bit x (n + j))" for n by simp
  have s1: "bit i1 n \<longleftrightarrow> (\<exists>j<2. bit x (n + j))" for n
    unfolding i1_def using smear_step[of x 1 x n, OF s0] by simp
  have s2: "bit i2 n \<longleftrightarrow> (\<exists>j<4. bit x (n + j))" for n
    unfolding i2_def using smear_step[of i1 2 x n, OF s1] by simp
  have s3: "bit i3 n \<longleftrightarrow> (\<exists>j<8. bit x (n + j))" for n
    unfolding i3_def using smear_step[of i2 4 x n, OF s2] by simp
  have s4: "bit i4 n \<longleftrightarrow> (\<exists>j<16. bit x (n + j))" for n
    unfolding i4_def using smear_step[of i3 8 x n, OF s3] by simp
  have s5: "bit i5 n \<longleftrightarrow> (\<exists>j<32. bit x (n + j))" for n
    unfolding i5_def using smear_step[of i4 16 x n, OF s4] by simp
  show ?thesis
    unfolding i6_def using smear_step[of i5 32 x n, OF s5] by simp
qed

lemma bit_between_powers:
  fixes m :: nat
  assumes "2 ^ k \<le> m" "m < 2 ^ Suc k"
  shows "bit m k" and "k < j \<Longrightarrow> \<not> bit m j"
proof -
  from assms have "m div 2 ^ k = 1"
    by (intro div_nat_eqI) simp_all
  then show "bit m k" by (simp add: bit_iff_odd)
  assume "k < j"
  then have "(2::nat) ^ Suc k \<le> 2 ^ j" by (intro power_increasing) simp_all
  with assms(2) have "m < 2 ^ j" by simp
  then show "\<not> bit m j" by (simp add: bit_iff_odd)
qed

lemma log_2_between_powers:
  assumes "2 ^ k \<le> m" "m < 2 ^ Suc k" "k < 64"
  shows "log_2 (of_nat m) = k"
proof -
  let ?x = "of_nat m :: 64 word"
  have bx: "bit ?x n \<longleftrightarrow> n < 64 \<and> bit m n" for n
    by (simp add: bit_of_nat_iff)
  define i1 where "i1 = ?x OR drop_bit 1 ?x"
  define i2 where "i2 = i1 OR drop_bit 2 i1"
  define i3 where "i3 = i2 OR drop_bit 4 i2"
  define i4 where "i4 = i3 OR drop_bit 8 i3"
  define i5 where "i5 = i4 OR drop_bit 16 i4"
  define i6 where "i6 = i5 OR drop_bit 32 i5"
  have sm: "bit i6 n \<longleftrightarrow> (\<exists>j<64. bit ?x (n + j))" for n
    unfolding i6_def i5_def i4_def i3_def i2_def i1_def by (rule smeared_bits)
  have "bit i6 n \<longleftrightarrow> n \<le> k" for n
  proof
    assume "bit i6 n"
    with sm obtain j where "bit ?x (n + j)" by blast
    with bx have "bit m (n + j)" by simp
    with bit_between_powers(2)[OF assms(1,2), of "n + j"] show "n \<le> k" by force
  next
    assume "n \<le> k"
    with assms(3) have "k - n < 64" "n + (k - n) = k" by simp_all
    moreover from bit_between_powers(1)[OF assms(1,2)] assms(3) have "bit ?x k"
      by (simp add: bx)
    ultimately have "\<exists>j<64. bit ?x (n + j)" by (intro exI[of _ "k - n"]) simp
    then show "bit i6 n" by (simp only: sm)
  qed
  then have i6: "i6 = mask (Suc k)"
  proof (intro bit_word_eqI)
    fix n assume "n < LENGTH(64)"
    assume "\<And>n. bit i6 n = (n \<le> k)"
    then have "bit i6 n = (n \<le> k)" .
    also have "\<dots> = bit (mask (Suc k) :: 64 word) n"
      using \<open>n < LENGTH(64)\<close> by (simp add: bit_mask_iff less_Suc_eq_le)
    finally show "bit i6 n = bit (mask (Suc k) :: 64 word) n" .
  qed
  have "drop_bit 1 (mask (Suc k) :: 64 word) = mask k"
    using assms(3) by (intro bit_word_eqI) (auto simp: bit_drop_bit_eq bit_mask_iff)
  then have "i6 - drop_bit 1 i6 = mask (Suc k) - mask k"
    by (simp only: i6)
  also have "\<dots> = (2 ^ k :: 64 word)"
    by (simp add: mask_eq_exp_minus_1)
  finally have "i6 - drop_bit 1 i6 = 2 ^ k" .
  moreover from table_lookup assms(3)
  have "tab64 ! unat (drop_bit 58 ((2 ^ k :: 64 word) * 0x07EDD5E59A4E28C2)) = k"
    by (simp add: list_all_iff)
  ultimately show ?thesis
    unfolding log_2_def Let_def i6_def i5_def i4_def i3_def i2_def i1_def by simp
qed

lemma level_bounds: "2 ^ level i \<le> i + 1 \<and> i + 1 < 2 ^ Suc (level i)"
proof (induction i rule: level.induct)
  case (1 i)
  show ?case
  proof (cases "i = 0")
    case True
    then show ?thesis by simp
  next
    case False
    then have l: "level i = Suc (level (parent i))" by (simp add: level_pos)
    from False have "i = 2 * parent i + 1 \<or> i = 2 * parent i + 2"
      unfolding parent_def by arith
    moreover from "1.IH"[OF False]
    have "2 ^ level (parent i) \<le> parent i + 1" "parent i + 1 < 2 ^ Suc (level (parent i))"
      by simp_all
    ultimately show ?thesis unfolding l by auto
  qed
qed

lemma min_level_is_level_parity:
  assumes "i + 1 < 2 ^ 64"
  shows "min_level i = on_min_level i"
proof (cases "i = 0")
  case True
  then show ?thesis by simp
next
  case False
  from level_bounds[of i] have b: "2 ^ level i \<le> i + 1" "i + 1 < 2 ^ Suc (level i)" by simp_all
  have "level i < 64"
  proof (rule ccontr)
    assume "\<not> level i < 64"
    then have "(2::nat) ^ 64 \<le> 2 ^ level i" by (intro power_increasing) simp_all
    with b(1) assms show False by simp
  qed
  from log_2_between_powers[OF b this] False show ?thesis
    by (simp add: min_level_def on_min_level_def even_iff_mod_2_eq_zero)
qed

text \<open>The level test of the code agrees with the levels of the invariant.\<close>

theorem min_level_agrees_with_depth:
  "i + 1 < 2 ^ 64 \<Longrightarrow> min_level i = even (level i)"
  using min_level_is_level_parity [of i] by (simp add: on_min_level_def)

theorem min_level_agrees_with_depth_witness:
  "(5::nat) + 1 < 2 ^ 64 \<and> min_level 5 = even (level 5) \<and> level 5 = 2"
proof -
  have l: "level 5 = 2" by code_simp
  have "(5::nat) + 1 < 2 ^ 64" by simp
  from min_level_agrees_with_depth [OF this] l show ?thesis by simp
qed

section \<open>Peeking at the minimum and the maximum\<close>

lemma descendant_of_root: "0 < j \<Longrightarrow> descendant 0 j"
proof (induction j rule: less_induct)
  case (less j)
  show ?case
  proof (cases "parent j = 0")
    case True
    with descendant_parent[OF less.prems] show ?thesis by simp
  next
    case False
    then have "0 < parent j" by simp
    from less.IH[OF parent_less[OF less.prems] this] descendant_parent[OF less.prems]
    show ?thesis by (rule descendant_trans)
  qed
qed

lemma heap_min_at_root:
  assumes inv: "mmheap_inv h n" and n: "1 \<le> n"
  shows "Min (set (take n h)) = h ! 0"
proof -
  from inv have len: "n \<le> length h"
    and pairs: "\<And>i j. i < n \<Longrightarrow> j < n \<Longrightarrow> descendant i j \<Longrightarrow> ordered_pair h i j"
    by (auto simp: mmheap_inv_def)
  have le: "h ! 0 \<le> h ! j" if "j < n" for j
  proof (cases "j = 0")
    case False
    with pairs[of 0 j] that n descendant_of_root[of j] show ?thesis
      by (simp add: ordered_pair_def)
  qed simp
  have s: "set (take n h) = (\<lambda>j. h ! j) ` {0..<n}"
    using nth_image[OF len] by simp
  show ?thesis
  proof (rule Min_eqI)
    show "finite (set (take n h))" by simp
    show "h ! 0 \<le> y" if "y \<in> set (take n h)" for y
      using that le by (auto simp: s)
    show "h ! 0 \<in> set (take n h)" using n by (auto simp: s)
  qed
qed

text \<open>
  On a min-max heap of \<open>n \<ge> 1\<close> elements \<^verbatim>\<open>mm_heap_min\<close> returns the least and
  \<^verbatim>\<open>mm_heap_max\<close> the greatest of the live elements.
\<close>

theorem mm_heap_min_max_correct:
  assumes "mmheap_inv h n" "1 \<le> n"
  shows "mm_heap_min h n = Inr (Min (set (take n h)))
       \<and> mm_heap_max h n = Inr (Max (set (take n h)))"
proof -
  from assms have len: "n \<le> length h" by (simp add: mmheap_inv_def)
  with assms(2) have b0: "0 < length h" by linarith
  have mn: "mm_heap_min h n = Inr (Min (set (take n h)))"
    using assms b0 by (simp add: mm_heap_min_def rd_ok heap_min_at_root)
  have mx: "mm_heap_max h n = Inr (Max (set (take n h)))"
  proof (cases "n = 1")
    case True
    with len have "take n h = [h ! 0]" by (cases h) simp_all
    with True b0 show ?thesis
      by (simp add: mm_heap_max_def max_child_def left_def rd_ok)
  next
    case False
    with assms(2) have n2: "2 \<le> n" by simp
    from n2 len have rb: "n - 1 < length h" by linarith
    have "left 0 \<le> n - 1" using n2 by (simp add: left_def)
    from max_child_ok[OF this rb]
    have mc: "max_child h 0 (n - 1) = Inr (True, pick_gt h (n - 1) 2 1)"
      by (simp add: numeral_2_eq_2)
    from n2 have "pick_gt h (n - 1) 2 1 \<le> n - 1" by (simp add: pick_gt_le)
    with rb have "pick_gt h (n - 1) 2 1 < length h" by simp
    then have "rd h (pick_gt h (n - 1) 2 1) = Inr (h ! pick_gt h (n - 1) 2 1)" by (rule rd_ok)
    with n2 mc heap_max_at_first_level[OF assms(1) n2] show ?thesis
      by (simp add: mm_heap_max_def)
  qed
  from mn mx show ?thesis by simp
qed

theorem mm_heap_min_max_correct_witness:
  "mmheap_inv [1, 9, 8, 3, 4, 5, 6] 7 \<and> (1::nat) \<le> 7
   \<and> mm_heap_min [1, 9, 8, 3, 4, 5, 6] 7 = Inr 1 \<and> mm_heap_max [1, 9, 8, 3, 4, 5, 6] 7 = Inr 9"
proof -
  have i1: "mmheap_inv [1, 9, 8, 3, 4, 5, 6] 7" by code_simp
  have "(1::nat) \<le> 7" by simp
  from mm_heap_min_max_correct [OF i1 this] i1 show ?thesis by simp
qed

section \<open>Sifting a minimum down restores the invariant\<close>

lemma sel_min_props:
  assumes "2 * k + 1 \<le> r"
  shows "sel_min h k r \<le> r"
    and "sel_min h k r \<in> {2 * k + 1, 2 * k + 2, 4 * k + 3, 4 * k + 4, 4 * k + 5, 4 * k + 6}"
    and "\<And>c. c \<in> {2 * k + 1, 2 * k + 2, 4 * k + 3, 4 * k + 4, 4 * k + 5, 4 * k + 6} \<Longrightarrow> c \<le> r
           \<Longrightarrow> h ! sel_min h k r \<le> h ! c"
proof -
  let ?mc = "pick_lt h r (2 * k + 2) (2 * k + 1)"
  let ?g1 = "pick_lt h r (4 * k + 4) (4 * k + 3)"
  let ?g2 = "pick_lt h r (4 * k + 5) ?g1"
  let ?g3 = "pick_lt h r (4 * k + 6) ?g2"
  have mc: "?mc \<le> r" "?mc = 2 * k + 2 \<or> ?mc = 2 * k + 1" "h ! ?mc \<le> h ! (2 * k + 1)"
    "2 * k + 2 \<le> r \<Longrightarrow> h ! ?mc \<le> h ! (2 * k + 2)"
    using assms by (auto simp: pick_lt_def)
  show "sel_min h k r \<le> r"
  proof (cases "4 * k + 3 \<le> r")
    case True
    then have "?g1 \<le> r" by (simp add: pick_lt_le)
    then have "?g2 \<le> r" by (simp add: pick_lt_le)
    then have "?g3 \<le> r" by (simp add: pick_lt_le)
    with mc True show ?thesis by (simp add: sel_min_def Let_def)
  next
    case False
    with mc show ?thesis by (simp add: sel_min_def Let_def)
  qed
  have g: "?g3 \<in> {4 * k + 3, 4 * k + 4, 4 * k + 5, 4 * k + 6}"
    using pick_lt_cases[of h r "4 * k + 4" "4 * k + 3"]
      pick_lt_cases[of h r "4 * k + 5" ?g1] pick_lt_cases[of h r "4 * k + 6" ?g2]
    by auto
  show "sel_min h k r \<in> {2 * k + 1, 2 * k + 2, 4 * k + 3, 4 * k + 4, 4 * k + 5, 4 * k + 6}"
    using g mc(2) by (auto simp: sel_min_def Let_def)
  fix c assume c: "c \<in> {2 * k + 1, 2 * k + 2, 4 * k + 3, 4 * k + 4, 4 * k + 5, 4 * k + 6}" "c \<le> r"
  have g1: "h ! ?g1 \<le> h ! (4 * k + 3)" "4 * k + 4 \<le> r \<Longrightarrow> h ! ?g1 \<le> h ! (4 * k + 4)"
    by (rule pick_lt_ge pick_lt_ge_new, assumption?)+
  have g2: "h ! ?g2 \<le> h ! ?g1" "4 * k + 5 \<le> r \<Longrightarrow> h ! ?g2 \<le> h ! (4 * k + 5)"
    by (rule pick_lt_ge pick_lt_ge_new, assumption?)+
  have g3: "h ! ?g3 \<le> h ! ?g2" "4 * k + 6 \<le> r \<Longrightarrow> h ! ?g3 \<le> h ! (4 * k + 6)"
    by (rule pick_lt_ge pick_lt_ge_new, assumption?)+
  have gall: "c \<in> {4 * k + 3, 4 * k + 4, 4 * k + 5, 4 * k + 6} \<Longrightarrow> h ! ?g3 \<le> h ! c"
    using c(2) g1 g2 g3 by auto
  have s: "h ! sel_min h k r \<le> h ! ?mc" "4 * k + 3 \<le> r \<Longrightarrow> h ! sel_min h k r \<le> h ! ?g3"
    by (auto simp: sel_min_def Let_def)
  show "h ! sel_min h k r \<le> h ! c"
  proof (cases "c \<in> {2 * k + 1, 2 * k + 2}")
    case True
    with mc(3,4) c(2) have "h ! ?mc \<le> h ! c" by auto
    with s(1) show ?thesis by simp
  next
    case False
    with c have cg: "c \<in> {4 * k + 3, 4 * k + 4, 4 * k + 5, 4 * k + 6}" by auto
    with c(2) have "4 * k + 3 \<le> r" by auto
    with gall[OF cg] s(2) show ?thesis by simp
  qed
qed

lemma min_child_or_gchild_ok:
  assumes "left k \<le> r" "r < length h"
  shows "min_child_or_gchild h k r = Inr (True, sel_min h k r)"
proof -
  let ?mc = "pick_lt h r (2 * k + 2) (2 * k + 1)"
  let ?g3 = "pick_lt h r (4 * k + 6) (pick_lt h r (4 * k + 5) (pick_lt h r (4 * k + 4) (4 * k + 3)))"
  from assms have k: "2 * k + 1 \<le> r" by (simp add: left_def)
  then have "?mc \<le> r" by (simp add: pick_lt_le)
  with assms have mcb: "?mc < length h" by simp
  show ?thesis
  proof (cases "4 * k + 3 \<le> r")
    case True
    then have "?g3 \<le> r" by (simp add: pick_lt_le)
    with assms have "?g3 < length h" by simp
    with True assms mcb show ?thesis
      by (simp add: min_child_or_gchild_def min_child_ok min_gchild_ok sel_min_def Let_def lt_ok)
  next
    case False
    with assms show ?thesis
      by (simp add: min_child_or_gchild_def min_child_ok min_gchild_none sel_min_def Let_def)
  qed
qed

lemma hole_inv_settled_min:
  assumes hi: "hole_inv h n k" and kmin: "on_min_level k"
    and F: "\<And>j. j < n \<Longrightarrow> descendant k j \<Longrightarrow> h ! k \<le> h ! j"
  shows "mmheap_inv h n"
proof -
  have "ordered_pair h i j" if "i < n" "j < n" "descendant i j" for i j
  proof (cases "i = k")
    case True
    with F that kmin show ?thesis by (simp add: ordered_pair_def)
  next
    case False
    with hi that show ?thesis by (simp add: hole_inv_def)
  qed
  with hi show ?thesis by (simp add: hole_inv_def mmheap_inv_def)
qed

lemma above_selected:
  assumes hi: "hole_inv h n k" and kmin: "on_min_level k" and n: "0 < n"
    and lk: "left k \<le> n - 1" and j: "j < n" "descendant k j"
  shows "h ! sel_min h k (n - 1) \<le> h ! j"
proof -
  let ?m = "sel_min h k (n - 1)"
  from lk have k1: "2 * k + 1 \<le> n - 1" by (simp add: left_def)
  have sel: "h ! ?m \<le> h ! c"
    if "c \<in> {2 * k + 1, 2 * k + 2, 4 * k + 3, 4 * k + 4, 4 * k + 5, 4 * k + 6}" "c < n" for c
    using sel_min_props(3)[OF k1 that(1)] that(2) by simp
  from j(2) have j0: "0 < j" using descendant_less by fastforce
  from descendant_split[OF j(2)] show ?thesis
  proof (elim disjE conjE exE)
    assume "parent j = k"
    with j0 have "j \<in> {2 * k + 1, 2 * k + 2}" using child_cases[of j k] by auto
    with sel j(1) show ?thesis by auto
  next
    assume "2 < j" "gparent j = k"
    then have "j \<in> {4 * k + 3, 4 * k + 4, 4 * k + 5, 4 * k + 6}" using gchild_cases[of j k] by auto
    with sel j(1) show ?thesis by auto
  next
    fix g assume g: "2 < g" "gparent g = k" "descendant g j"
    then have gc: "g \<in> {4 * k + 3, 4 * k + 4, 4 * k + 5, 4 * k + 6}" using gchild_cases[of g k] by auto
    from g(3) have gj: "g < j" by (rule descendant_less)
    with j(1) have gn: "g < n" by simp
    from g(1) have "0 < g" "0 < parent g" by (auto simp: parent_def)
    with g(2) kmin have gmin: "on_min_level g"
      using on_min_level_parent[of g] on_min_level_parent[of "parent g"] by (simp add: gparent_def)
    from gc have "g \<noteq> k" by auto
    with hi gn j(1) g(3) have "ordered_pair h g j" by (auto simp: hole_inv_def)
    with gmin have "h ! g \<le> h ! j" by (simp add: ordered_pair_def)
    moreover from sel gc gn have "h ! ?m \<le> h ! g" by blast
    ultimately show ?thesis by simp
  qed
qed

lemma swap_child_inv_min:
  assumes hi: "hole_inv h n k" and kn: "k < n" and kmin: "on_min_level k"
    and mn: "m < n" and m0: "0 < m" and pm: "parent m = k"
    and F1: "\<And>j. j < n \<Longrightarrow> descendant k j \<Longrightarrow> h ! m \<le> h ! j"
    and gt: "h ! m < h ! k"
  shows "mmheap_inv (swp h m k) n"
proof -
  from hi have len: "n \<le> length h"
    and pairs: "\<And>i j. i < n \<Longrightarrow> j < n \<Longrightarrow> descendant i j \<Longrightarrow> i \<noteq> k \<Longrightarrow> ordered_pair h i j"
    by (auto simp: hole_inv_def)
  have km: "k < m" using parent_less[OF m0] pm by simp
  have dkm: "descendant k m" using descendant_parent[OF m0] pm by simp
  have mmax: "\<not> on_min_level m" using on_min_level_parent[OF m0] pm kmin by simp
  let ?h = "swp h m k"
  have nth: "?h ! l = (if l = k then h ! m else if l = m then h ! k else h ! l)" if "l < n" for l
    using len kn mn that by (simp add: swp_nth)
  have "ordered_pair ?h i j" if ij: "i < n" "j < n" "descendant i j" for i j
  proof -
    have ilj: "i < j" using descendant_less[OF ij(3)] .
    consider "i = k" | "i = m" | "i \<noteq> k" "i \<noteq> m" by blast
    then show ?thesis
    proof cases
      case 1
      show ?thesis
      proof (cases "j = m")
        case True
        with 1 kmin gt nth[OF kn] nth[OF mn] km show ?thesis by (simp add: ordered_pair_def)
      next
        case False
        with 1 ilj have "?h ! j = h ! j" using nth[OF ij(2)] by simp
        moreover have "h ! m \<le> h ! j" using F1 ij 1 by simp
        ultimately show ?thesis using 1 kmin nth[OF kn] by (simp add: ordered_pair_def)
      qed
    next
      case 2
      then have "j \<noteq> k" "j \<noteq> m" using ilj km by auto
      then have "?h ! j = h ! j" using nth[OF ij(2)] by simp
      moreover have "ordered_pair h m j" using pairs[OF mn ij(2)] ij(3) 2 km by auto
      ultimately show ?thesis using 2 mmax gt nth[OF mn] km by (auto simp: ordered_pair_def)
    next
      case 3
      then have hi': "?h ! i = h ! i" using nth[OF ij(1)] by simp
      show ?thesis
      proof (cases "j = k")
        case True
        then have "descendant i m" using descendant_trans[OF _ dkm] ij(3) by simp
        then have "ordered_pair h i m" using pairs[OF ij(1) mn] 3 by simp
        then show ?thesis using True hi' nth[OF kn] by (simp add: ordered_pair_def)
      next
        case jk: False
        show ?thesis
        proof (cases "j = m")
          case True
          with ij(3) 3 pm have "descendant i k" using ancestor_of_child[of i m] by auto
          then have "ordered_pair h i k" using pairs[OF ij(1) kn] 3 by simp
          then show ?thesis using True hi' nth[OF mn] km by (simp add: ordered_pair_def)
        next
          case False
          then have "?h ! j = h ! j" using jk nth[OF ij(2)] by simp
          then show ?thesis using pairs[OF ij] 3 hi' by (simp add: ordered_pair_def)
        qed
      qed
    qed
  qed
  then show ?thesis using len by (simp add: mmheap_inv_def)
qed

lemma swap_gchild_hole_min:
  assumes hi: "hole_inv h n k" and kn: "k < n" and kmin: "on_min_level k"
    and mn: "m < n" and m2: "2 < m" and gm: "gparent m = k"
    and F1: "\<And>j. j < n \<Longrightarrow> descendant k j \<Longrightarrow> h ! m \<le> h ! j"
    and gt: "h ! m < h ! k"
  shows "hole_inv (if swp h m k ! m > swp h m k ! parent m
                   then swp (swp h m k) m (parent m) else swp h m k) n m"
    (is "hole_inv ?h2 n m")
proof -
  from hi have len: "n \<le> length h"
    and pairs: "\<And>i j. i < n \<Longrightarrow> j < n \<Longrightarrow> descendant i j \<Longrightarrow> i \<noteq> k \<Longrightarrow> ordered_pair h i j"
    by (auto simp: hole_inv_def)
  define p where "p = parent m"
  from m2 have m0: "0 < m" and p0: "0 < p" by (auto simp: p_def parent_def)
  from gm have pp: "parent p = k" by (simp add: p_def gparent_def)
  have pm: "p < m" using parent_less[OF m0] by (simp add: p_def)
  have kp: "k < p" using parent_less[OF p0] pp by simp
  have pn: "p < n" using pm mn by simp
  have dpm: "descendant p m" using descendant_parent[OF m0] by (simp add: p_def)
  have dkp: "descendant k p" using descendant_parent[OF p0] pp by simp
  have dkm: "descendant k m" using descendant_trans[OF dkp dpm] .
  have pmax: "\<not> on_min_level p" using on_min_level_parent[OF p0] pp kmin by simp
  have mmin: "on_min_level m" using on_min_level_parent[OF m0] pmax by (simp add: p_def)
  have qy: "h ! m \<le> h ! p" using F1[OF pn dkp] .
  have h1: "swp h m k ! l = (if l = k then h ! m else if l = m then h ! k else h ! l)"
    if "l < n" for l
    using len kn mn that by (simp add: swp_nth)
  have nth: "?h2 ! l = (if l = k then h ! m else if l = p then max (h ! k) (h ! p)
                        else if l = m then min (h ! k) (h ! p) else h ! l)" if "l < n" for l
  proof (cases "h ! k > h ! p")
    case True
    then have "?h2 = swp (swp h m k) m p"
      using h1[OF mn] h1[OF pn] pm kp by (simp add: p_def)
    then show ?thesis
      using True that len mn pn kn pm kp h1 by (auto simp: swp_nth)
  next
    case False
    then have "?h2 = swp h m k"
      using h1[OF mn] h1[OF pn] pm kp by (simp add: p_def)
    then show ?thesis
      using False that pm kp h1 by auto
  qed
  have "ordered_pair ?h2 i j" if ij: "i < n" "j < n" "descendant i j" and im: "i \<noteq> m" for i j
  proof -
    have ilj: "i < j" using descendant_less[OF ij(3)] .
    consider (ik) "i = k" | (ip) "i = p" | (io) "i \<noteq> k" "i \<noteq> p" by blast
    then show ?thesis
    proof cases
      case ik
      have "h ! m \<le> ?h2 ! j"
      proof -
        consider (jp) "j = p" | (jm) "j = m" | (jo) "j \<noteq> p" "j \<noteq> m" by blast
        then show ?thesis
        proof cases
          case jp then show ?thesis using nth[OF pn] kp gt by auto
        next
          case jm then show ?thesis using nth[OF mn] kp pm gt qy by auto
        next
          case jo
          with ilj ik have "?h2 ! j = h ! j" using nth[OF ij(2)] by simp
          then show ?thesis using F1[OF ij(2)] ij(3) ik by simp
        qed
      qed
      then show ?thesis using ik kmin nth[OF kn] by (simp add: ordered_pair_def)
    next
      case ip
      have "?h2 ! j \<le> max (h ! k) (h ! p)"
      proof (cases "j = m")
        case True then show ?thesis using nth[OF mn] kp pm by auto
      next
        case False
        with ilj ip kp have "?h2 ! j = h ! j" using nth[OF ij(2)] by simp
        moreover have "ordered_pair h p j" using pairs[OF pn ij(2)] ij(3) ip kp by auto
        ultimately show ?thesis using pmax by (auto simp: ordered_pair_def)
      qed
      then show ?thesis using ip pmax nth[OF pn] kp by (simp add: ordered_pair_def)
    next
      case io
      with im have hi': "?h2 ! i = h ! i" using nth[OF ij(1)] by simp
      consider (jk) "j = k" | (jp) "j = p" | (jm) "j = m"
        | (jo) "j \<noteq> k" "j \<noteq> p" "j \<noteq> m" by blast
      then show ?thesis
      proof cases
        case jk
        then have "descendant i m" using descendant_trans[OF _ dkm] ij(3) by simp
        then have "ordered_pair h i m" using pairs[OF ij(1) mn] io by simp
        then show ?thesis using jk hi' nth[OF kn] by (simp add: ordered_pair_def)
      next
        case jp
        with ij(3) io pp have dik: "descendant i k" using ancestor_of_child[of i p] by auto
        have "ordered_pair h i k" using pairs[OF ij(1) kn dik] io by simp
        moreover have "ordered_pair h i p" using pairs[OF ij(1) pn] ij(3) jp io by simp
        ultimately show ?thesis using jp hi' nth[OF pn] kp by (auto simp: ordered_pair_def)
      next
        case jm
        with ij(3) io have dip: "descendant i p" using ancestor_of_child[of i m] by (auto simp: p_def)
        with io pp have dik: "descendant i k" using ancestor_of_child[of i p] by auto
        have "ordered_pair h i k" using pairs[OF ij(1) kn dik] io by simp
        moreover have "ordered_pair h i p" using pairs[OF ij(1) pn dip] io by simp
        ultimately show ?thesis using jm hi' nth[OF mn] kp pm by (auto simp: ordered_pair_def)
      next
        case jo
        then have "?h2 ! j = h ! j" using nth[OF ij(2)] by simp
        then show ?thesis using pairs[OF ij] io hi' by (simp add: ordered_pair_def)
      qed
    qed
  qed
  moreover have "length ?h2 = length h" by simp
  ultimately show ?thesis using len unfolding hole_inv_def by auto
qed

lemma sift_down_min_unfold:
  assumes "left k \<le> r" "r < length h"
  shows "mmheap_sift_down_min h k r =
    (if child k (sel_min h k r)
     then Inr (if h ! sel_min h k r < h ! k then swp h (sel_min h k r) k else h)
     else if h ! sel_min h k r < h ! k then
        mmheap_sift_down_min
          (if swp h (sel_min h k r) k ! sel_min h k r > swp h (sel_min h k r) k ! parent (sel_min h k r)
           then swp (swp h (sel_min h k r) k) (sel_min h k r) (parent (sel_min h k r))
           else swp h (sel_min h k r) k)
          (sel_min h k r) r
     else Inr h)"
proof -
  let ?m = "sel_min h k r"
  from assms have k1: "2 * k + 1 \<le> r" by (simp add: left_def)
  from sel_min_props(1)[OF k1, of h] assms have mb: "?m < length h" by simp
  from k1 assms have kb: "k < length h" by simp
  have "parent ?m \<le> ?m" by (simp add: parent_def)
  with mb have pb: "parent ?m < length h" by simp
  show ?thesis
    by (subst mmheap_sift_down_min.simps)
       (simp add: assms min_child_or_gchild_ok gt_ok lt_ok swap_ok mb kb pb)
qed

lemma sift_down_min_correct:
  assumes "hole_inv h n k" "k < n" "on_min_level k"
  shows "\<exists>h'. mmheap_sift_down_min h k (n - 1) = Inr h' \<and> mmheap_inv h' n"
  using assms
proof (induction "n - k" arbitrary: h k rule: less_induct)
  case less
  note hi = less.prems(1) and kn = less.prems(2) and kmin = less.prems(3)
  from hi have len: "n \<le> length h" by (simp add: hole_inv_def)
  from kn have n0: "0 < n" by simp
  with len have rb: "n - 1 < length h" by simp
  show ?case
  proof (cases "left k \<le> n - 1")
    case False
    then have "mmheap_sift_down_min h k (n - 1) = Inr h"
      by (subst mmheap_sift_down_min.simps) simp
    moreover from False n0 have "n \<le> left k" by simp
    then have "mmheap_inv h n" using hole_inv_no_children[OF hi] by simp
    ultimately show ?thesis by simp
  next
    case True
    let ?m = "sel_min h k (n - 1)"
    from True have k1: "2 * k + 1 \<le> n - 1" by (simp add: left_def)
    from sel_min_props(1)[OF k1, of h] n0 have mn: "?m < n" by simp
    note mset = sel_min_props(2)[OF k1, of h]
    have F1: "h ! ?m \<le> h ! j" if "j < n" "descendant k j" for j
      using above_selected[OF hi kmin n0 True that] .
    note unf = sift_down_min_unfold[OF True rb]
    show ?thesis
    proof (cases "h ! ?m < h ! k")
      case False
      then have F: "h ! k \<le> h ! j" if "j < n" "descendant k j" for j
        using F1[OF that] by simp
      have "mmheap_inv h n" using hole_inv_settled_min[OF hi kmin F] .
      moreover from False have "mmheap_sift_down_min h k (n - 1) = Inr h"
        by (subst unf) simp
      ultimately show ?thesis by simp
    next
      case gt: True
      show ?thesis
      proof (cases "child k ?m")
        case True
        then have "0 < ?m" "parent ?m = k" by (auto simp: child_def left_def right_def)
        from swap_child_inv_min[OF hi kn kmin mn this F1] gt
        have "mmheap_inv (swp h ?m k) n" by simp
        moreover from True gt have "mmheap_sift_down_min h k (n - 1) = Inr (swp h ?m k)"
          by (subst unf) simp
        ultimately show ?thesis by simp
      next
        case False
        with mset have mg: "?m \<in> {4 * k + 3, 4 * k + 4, 4 * k + 5, 4 * k + 6}"
          by (auto simp: child_def left_def right_def)
        then have m2: "2 < ?m" by auto
        with mg have gm: "gparent ?m = k" using gchild_cases[of ?m k] by simp
        let ?h2 = "if swp h ?m k ! ?m > swp h ?m k ! parent ?m
                   then swp (swp h ?m k) ?m (parent ?m) else swp h ?m k"
        from swap_gchild_hole_min[OF hi kn kmin mn m2 gm F1] gt
        have hi2: "hole_inv ?h2 n ?m" by simp
        from m2 have "0 < ?m" "0 < parent ?m" by (auto simp: parent_def)
        with gm kmin have mmin: "on_min_level ?m"
          using on_min_level_parent[of ?m] on_min_level_parent[of "parent ?m"]
          by (simp add: gparent_def)
        from mg have "k < ?m" by auto
        with mn have "n - ?m < n - k" by simp
        from less.hyps[OF this hi2 mn mmin]
        obtain h' where "mmheap_sift_down_min ?h2 ?m (n - 1) = Inr h'" "mmheap_inv h' n"
          by blast
        moreover from False gt
        have "mmheap_sift_down_min h k (n - 1) = mmheap_sift_down_min ?h2 ?m (n - 1)"
          by (subst unf) simp
        ultimately show ?thesis by simp
      qed
    qed
  qed
qed

section \<open>Removing the minimum of a heap of two or more elements\<close>

lemma mset_take_swp:
  assumes "i < n" "j < n" "n \<le> length h"
  shows "mset (take n (swp h i j)) = mset (take n h)"
proof -
  have "take n (swp h i j) = (take n h)[i := take n h ! j, j := take n h ! i]"
    using assms by (simp add: swp_def take_update_swap)
  also have "mset \<dots> = mset (take n h)"
    using assms mset_swap[of j "take n h" i] by simp
  finally show ?thesis .
qed

lemma drop_swp: "i < n \<Longrightarrow> j < n \<Longrightarrow> drop n (swp h i j) = drop n h"
  by (simp add: swp_def)

lemma sift_down_min_perm:
  assumes "r < length h"
  shows "\<exists>h'. mmheap_sift_down_min h k r = Inr h' \<and> length h' = length h
            \<and> mset (take (Suc r) h') = mset (take (Suc r) h)
            \<and> drop (Suc r) h' = drop (Suc r) h"
  using assms
proof (induction "Suc r - k" arbitrary: h k rule: less_induct)
  case less
  note rb = less.prems
  show ?case
  proof (cases "left k \<le> r")
    case False
    then have "mmheap_sift_down_min h k r = Inr h"
      by (subst mmheap_sift_down_min.simps) simp
    then show ?thesis by simp
  next
    case True
    let ?m = "sel_min h k r"
    from True have k1: "2 * k + 1 \<le> r" by (simp add: left_def)
    from sel_min_props(1)[OF k1, of h] have mr: "?m < Suc r" by simp
    note mset = sel_min_props(2)[OF k1, of h]
    from mset have km: "k < ?m" by auto
    with mr have kr: "k < Suc r" by simp
    have "parent ?m \<le> ?m" by (simp add: parent_def)
    with mr have pr: "parent ?m < Suc r" by simp
    from rb have len: "Suc r \<le> length h" by simp
    note unf = sift_down_min_unfold[OF True rb]
    let ?h1 = "swp h ?m k"
    have p1: "mset (take (Suc r) ?h1) = mset (take (Suc r) h)" "drop (Suc r) ?h1 = drop (Suc r) h"
      using mset_take_swp[OF mr kr len] drop_swp[OF mr kr] by simp_all
    show ?thesis
    proof (cases "child k ?m \<or> \<not> h ! ?m < h ! k")
      case True
      then have "mmheap_sift_down_min h k r = Inr h \<or> mmheap_sift_down_min h k r = Inr ?h1"
        by (subst unf, subst unf) auto
      with p1 show ?thesis by auto
    next
      case False
      let ?h2 = "if ?h1 ! ?m > ?h1 ! parent ?m then swp ?h1 ?m (parent ?m) else ?h1"
      have len1: "Suc r \<le> length ?h1" using len by simp
      have p2: "mset (take (Suc r) ?h2) = mset (take (Suc r) h)" "drop (Suc r) ?h2 = drop (Suc r) h"
        "length ?h2 = length h"
        using p1 mset_take_swp[OF mr pr len1] drop_swp[OF mr pr, of ?h1] by simp_all
      from km mr have "Suc r - ?m < Suc r - k" by simp
      moreover have "r < length ?h2" using rb by simp
      ultimately obtain h' where h': "mmheap_sift_down_min ?h2 ?m r = Inr h'"
        "length h' = length ?h2" "mset (take (Suc r) h') = mset (take (Suc r) ?h2)"
        "drop (Suc r) h' = drop (Suc r) ?h2"
        using less.hyps[of ?m ?h2] by blast
      moreover from False
      have "mmheap_sift_down_min h k r = mmheap_sift_down_min ?h2 ?m r"
        by (subst unf) simp
      ultimately show ?thesis using p2 by simp
    qed
  qed
qed

lemma mmheap_inv_take: "mmheap_inv h n \<Longrightarrow> mmheap_inv (take n h) n"
  by (simp add: mmheap_inv_def ordered_pair_def)

lemma remove_min_hole:
  assumes inv: "mmheap_inv h n" and n2: "2 \<le> n"
  shows "hole_inv (swp h 0 (n - 1)) (n - 1) 0"
proof -
  from inv have len: "n \<le> length h"
    and pairs: "\<And>i j. i < n \<Longrightarrow> j < n \<Longrightarrow> descendant i j \<Longrightarrow> ordered_pair h i j"
    by (auto simp: mmheap_inv_def)
  from n2 len have b: "0 < length h" "n - 1 < length h" by linarith+
  have "ordered_pair (swp h 0 (n - 1)) i j"
    if "i < n - 1" "j < n - 1" "descendant i j" "i \<noteq> 0" for i j
  proof -
    from that(3) have "i < j" by (rule descendant_less)
    with that have "swp h 0 (n - 1) ! i = h ! i" "swp h 0 (n - 1) ! j = h ! j"
      using b by (simp_all add: swp_nth)
    moreover from that have "ordered_pair h i j" using pairs[of i j] by simp
    ultimately show ?thesis by (simp add: ordered_pair_def)
  qed
  with len show ?thesis by (simp add: hole_inv_def)
qed

lemma remove_min_run:
  assumes inv: "mmheap_inv h n" and n2: "2 \<le> n"
  shows "\<exists>h'. mm_heap_remove_min h n = Inr (h ! 0, h', n - 1)
            \<and> length h' = length h \<and> mmheap_inv h' (n - 1)
            \<and> add_mset (h ! 0) (mset (take (n - 1) h')) = mset (take n h)
            \<and> drop n h' = drop n h"
proof -
  from inv have len: "n \<le> length h" by (simp add: mmheap_inv_def)
  from n2 len have b: "0 < length h" "n - 1 < length h" by linarith+
  let ?h1 = "swp h 0 (n - 1)"
  from n2 have s: "size_sub n (Suc 0) = n - Suc 0" "size_sub (n - Suc 0) (Suc 0) = n - Suc (Suc 0)"
    by (simp_all add: size_sub_def)
  from n2 have n1: "0 < n - 1" by simp
  from sift_down_min_correct[OF remove_min_hole[OF inv n2] n1]
  obtain h' where h': "mmheap_sift_down_min ?h1 0 (n - 1 - 1) = Inr h'" "mmheap_inv h' (n - 1)"
    by auto
  have e: "Suc (n - 1 - 1) = n - 1" using n2 by simp
  have "n - 1 - 1 < length ?h1" using b by simp
  from sift_down_min_perm[OF this, of 0, unfolded e] h'(1)
  have p: "length h' = length h" "mset (take (n - 1) h') = mset (take (n - 1) ?h1)"
    "drop (n - 1) h' = drop (n - 1) ?h1"
    by auto
  have run: "mm_heap_remove_min h n = Inr (h ! 0, h', n - 1)"
    using n2 b h'(1) by (simp add: mm_heap_remove_min_def rd_ok swap_ok s mmheap_sift_down_def)
  have "take n ?h1 = take (n - 1) ?h1 @ [?h1 ! (n - 1)]"
    using take_Suc_conv_app_nth[of "n - 1" ?h1] b n2 by simp
  moreover have "?h1 ! (n - 1) = h ! 0" using b by (simp add: swp_nth)
  moreover have "mset (take n ?h1) = mset (take n h)"
    using mset_take_swp[of 0 n "n - 1" h] n2 len by simp
  ultimately have m: "add_mset (h ! 0) (mset (take (n - 1) ?h1)) = mset (take n h)"
    by (metis mset.simps(2) mset_append add_mset_add_single union_mset_add_mset_right
        empty_neutral(2) mset.simps(1))
  have d: "drop n h' = drop n h"
  proof -
    have "drop n h' = drop 1 (drop (n - 1) h')" using n2 by simp
    also have "\<dots> = drop 1 (drop (n - 1) ?h1)" using p(3) by simp
    also have "\<dots> = drop n ?h1" using n2 by simp
    also have "\<dots> = drop n h" using n2 by (simp add: drop_swp)
    finally show ?thesis .
  qed
  from run p(1) h'(2) m p(2) d show ?thesis by simp
qed

text \<open>
  On a min-max heap of \<open>n \<ge> 2\<close> elements \<^verbatim>\<open>mm_heap_remove_min\<close> returns the minimum
  \<^verbatim>\<open>heap_array[0]\<close> and leaves \<open>n - 1\<close> elements, the old ones without one copy of the
  minimum, as a min-max heap; the slots behind the first \<open>n\<close> keep their content. The
  same call on the buffer cut down to its first \<open>n\<close> slots succeeds: every access is
  to an index below \<open>n\<close>.
\<close>

theorem mm_heap_remove_min_correct:
  assumes "mmheap_inv h n" "2 \<le> n"
  shows "\<exists>h' h''. mm_heap_remove_min h n = Inr (h ! 0, h', n - 1)
            \<and> h ! 0 = Min (set (take n h))
            \<and> length h' = length h \<and> mmheap_inv h' (n - 1)
            \<and> add_mset (h ! 0) (mset (take (n - 1) h')) = mset (take n h)
            \<and> drop n h' = drop n h
            \<and> mm_heap_remove_min (take n h) n = Inr (h ! 0, h'', n - 1)"
proof -
  from assms have n1: "1 \<le> n" by simp
  from assms have "0 < n" by simp
  then have t0: "take n h ! 0 = h ! 0" by simp
  from remove_min_run[OF mmheap_inv_take[OF assms(1)] assms(2)] t0
  obtain h'' where "mm_heap_remove_min (take n h) n = Inr (h ! 0, h'', n - 1)" by auto
  with remove_min_run[OF assms] heap_min_at_root[OF assms(1) n1] show ?thesis by auto
qed

theorem mm_heap_remove_min_correct_witness:
  "mmheap_inv [1, 9, 8, 3, 4, 5, 6, 0] 7 \<and> (2::nat) \<le> 7
   \<and> mm_heap_remove_min [1, 9, 8, 3, 4, 5, 6, 0] 7 = Inr (1, [3, 9, 8, 6, 4, 5, 1, 0], 6)
   \<and> mmheap_inv [3, 9, 8, 6, 4, 5, 1, 0] 6"
proof -
  have i1: "mmheap_inv [1, 9, 8, 3, 4, 5, 6, 0] 7" by code_simp
  have r: "mm_heap_remove_min [1, 9, 8, 3, 4, 5, 6, 0] 7 = Inr (1, [3, 9, 8, 6, 4, 5, 1, 0], 6)"
    by code_simp
  have "(2::nat) \<le> 7" by simp
  from mm_heap_remove_min_correct [OF i1 this] i1 r show ?thesis by auto
qed

section \<open>Bubbling a new leaf up restores the invariant\<close>

text \<open>
  The invariant with the pairs left out whose lower end is \<open>k\<close> and whose upper end is
  on a level of the kind of \<open>k\<close>: the state of the heap while the value at \<open>k\<close> is
  bubbled up over its grandparents.
\<close>

definition up_inv :: "int list \<Rightarrow> nat \<Rightarrow> nat \<Rightarrow> bool" where
  "up_inv h n k =
     (n \<le> length h \<and>
      (\<forall>i<n. \<forall>j<n. descendant i j \<longrightarrow>
          (j = k \<and> on_min_level i = on_min_level k) \<or> ordered_pair h i j))"

lemma ancestor_of_first_levels: "descendant i k \<Longrightarrow> k \<le> 2 \<Longrightarrow> i = 0 \<and> (k = 1 \<or> k = 2)"
proof -
  assume d: "descendant i k" and k: "k \<le> 2"
  from d have k0: "0 < k" and c: "parent k = i \<or> descendant i (parent k)"
    by (auto simp: descendant_iff[of i k])
  from k0 k have "parent k = 0" by (auto simp: parent_def)
  with c k0 k show ?thesis by auto
qed

lemma gparent_facts:
  assumes "2 < k"
  shows "0 < k" "0 < parent k" "gparent k < parent k" "parent k < k"
    "descendant (gparent k) (parent k)" "descendant (parent k) k" "descendant (gparent k) k"
    "on_min_level (gparent k) = on_min_level k" "on_min_level (parent k) = (\<not> on_min_level k)"
proof -
  from assms show k0: "0 < k" and p0: "0 < parent k" by (auto simp: parent_def)
  show gp: "gparent k < parent k" using parent_less[OF p0] by (simp add: gparent_def)
  show "parent k < k" using parent_less[OF k0] .
  show d1: "descendant (gparent k) (parent k)"
    using descendant_parent[OF p0] by (simp add: gparent_def)
  show d2: "descendant (parent k) k" using descendant_parent[OF k0] .
  show "descendant (gparent k) k" using descendant_trans[OF d1 d2] .
  show "on_min_level (gparent k) = on_min_level k"
    using on_min_level_parent[OF k0] on_min_level_parent[OF p0] by (simp add: gparent_def)
  show "on_min_level (parent k) = (\<not> on_min_level k)"
    using on_min_level_parent[OF k0] by simp
qed

lemma ancestor_cases:
  assumes "descendant i k" "2 < k"
  shows "i = parent k \<or> i = gparent k \<or> descendant i (gparent k)"
  using ancestor_of_child[OF assms(1)] ancestor_of_child[of i "parent k"]
  by (auto simp: gparent_def)

lemma up_done:
  assumes ui: "up_inv h n k" and kn: "k < n" and top: "2 < k \<Longrightarrow> ordered_pair h (gparent k) k"
  shows "mmheap_inv h n"
proof -
  from ui have len: "n \<le> length h"
    and pairs: "\<And>i j. i < n \<Longrightarrow> j < n \<Longrightarrow> descendant i j \<Longrightarrow>
                  (j = k \<and> on_min_level i = on_min_level k) \<or> ordered_pair h i j"
    by (auto simp: up_inv_def)
  have "ordered_pair h i j" if ij: "i < n" "j < n" "descendant i j" for i j
  proof (cases "j = k \<and> on_min_level i = on_min_level k")
    case False
    with pairs[OF ij] show ?thesis by blast
  next
    case True
    then have jk: "j = k" and lv: "on_min_level i = on_min_level k" by simp_all
    show ?thesis
    proof (cases "2 < k")
      case False
      with ij(3) jk have "i = 0" "k = 1 \<or> k = 2" using ancestor_of_first_levels[of i k] by auto
      with lv level_one_max show ?thesis by auto
    next
      case k2: True
      note g = gparent_facts[OF k2]
      from ancestor_cases[OF _ k2, of i] ij(3) jk
      consider "i = parent k" | "i = gparent k" | "descendant i (gparent k)" by auto
      then show ?thesis
      proof cases
        case 1 with lv g(9) show ?thesis by simp
      next
        case 2 with top[OF k2] jk show ?thesis by simp
      next
        case 3
        from g(3,4) kn have gn: "gparent k < n" and gk: "gparent k \<noteq> k" by simp_all
        from pairs[OF ij(1) gn 3] gk have "ordered_pair h i (gparent k)" by simp
        with top[OF k2] lv g(8) jk show ?thesis by (auto simp: ordered_pair_def)
      qed
    qed
  qed
  with len show ?thesis by (simp add: mmheap_inv_def)
qed

lemma up_step:
  assumes ui: "up_inv h n k" and kn: "k < n" and k2: "2 < k"
    and bad: "\<not> ordered_pair h (gparent k) k"
  shows "up_inv (swp h k (gparent k)) n (gparent k)"
proof -
  from ui have len: "n \<le> length h"
    and pairs: "\<And>i j. i < n \<Longrightarrow> j < n \<Longrightarrow> descendant i j \<Longrightarrow>
                  (j = k \<and> on_min_level i = on_min_level k) \<or> ordered_pair h i j"
    by (auto simp: up_inv_def)
  define g where "g = gparent k"
  define p where "p = parent k"
  note f = gparent_facts[OF k2, folded g_def p_def]
  from f(3,4) kn have gn: "g < n" and pn: "p < n" and gk: "g < k" by simp_all
  let ?h = "swp h k g"
  have nth: "?h ! l = (if l = g then h ! k else if l = k then h ! g else h ! l)" if "l < n" for l
    using len kn gn that by (simp add: swp_nth)
  have "(j = g \<and> on_min_level i = on_min_level g) \<or> ordered_pair ?h i j"
    if ij: "i < n" "j < n" "descendant i j" for i j
  proof -
    have ilj: "i < j" using descendant_less[OF ij(3)] .
    consider (ig) "i = g" | (ik) "i = k" | (io) "i \<noteq> g" "i \<noteq> k" by blast
    then show ?thesis
    proof cases
      case ig
      show ?thesis
      proof (cases "j = k")
        case True
        with ig bad f(8) gk show ?thesis
          using nth[OF gn] nth[OF kn] by (auto simp: ordered_pair_def g_def)
      next
        case False
        with ig ilj have "?h ! j = h ! j" using nth[OF ij(2)] by simp
        moreover from pairs[OF gn ij(2)] ij(3) ig False have "ordered_pair h g j" by simp
        ultimately show ?thesis
          using ig bad f(8) nth[OF gn] by (auto simp: ordered_pair_def g_def)
      qed
    next
      case ik
      with ilj gk have "j \<noteq> g" "j \<noteq> k" by simp_all
      then have "?h ! j = h ! j" using nth[OF ij(2)] by simp
      moreover have "descendant g j" using descendant_trans[OF f(7)] ij(3) ik by simp
      with pairs[OF gn ij(2)] \<open>j \<noteq> k\<close> have "ordered_pair h g j" by simp
      ultimately show ?thesis
        using ik f(8) nth[OF kn] gk by (auto simp: ordered_pair_def)
    next
      case io
      then have hi: "?h ! i = h ! i" using nth[OF ij(1)] by simp
      consider (jg) "j = g" | (jk) "j = k" | (jo) "j \<noteq> g" "j \<noteq> k" by blast
      then show ?thesis
      proof cases
        case jg
        show ?thesis
        proof (cases "on_min_level i = on_min_level g")
          case True with jg show ?thesis by simp
        next
          case False
          have "descendant i k" using descendant_trans[OF _ f(7)] ij(3) jg by simp
          with pairs[OF ij(1) kn] False f(8) have "ordered_pair h i k" by simp
          with jg hi nth[OF gn] show ?thesis by (simp add: ordered_pair_def)
        qed
      next
        case jk
        from ancestor_cases[OF _ k2, of i] ij(3) jk io
        consider "i = p" | "descendant i g" by (auto simp: g_def p_def)
        then have "ordered_pair h i g \<or> (i = p \<and> ordered_pair h g p)"
        proof cases
          case 1
          from pairs[OF gn pn f(5)] f(4) have "ordered_pair h g p" by simp
          with 1 show ?thesis by simp
        next
          case 2
          from pairs[OF ij(1) gn 2] gk show ?thesis by simp
        qed
        then show ?thesis
          using jk hi nth[OF kn] gk f(8,9) by (auto simp: ordered_pair_def)
      next
        case jo
        then have "?h ! j = h ! j" using nth[OF ij(2)] by simp
        with pairs[OF ij] jo hi show ?thesis by (simp add: ordered_pair_def)
      qed
    qed
  qed
  then show ?thesis using len by (simp add: up_inv_def g_def)
qed

lemma bubble_up_min_correct:
  assumes "up_inv h n k" "k < n" "on_min_level k"
  shows "\<exists>h'. bubble_up_min h k = Inr h' \<and> mmheap_inv h' n \<and> length h' = length h
            \<and> mset (take n h') = mset (take n h) \<and> drop n h' = drop n h"
  using assms
proof (induction k arbitrary: h rule: less_induct)
  case (less k)
  note ui = less.prems(1) and kn = less.prems(2) and kmin = less.prems(3)
  from ui have len: "n \<le> length h" by (simp add: up_inv_def)
  with kn have kb: "k < length h" by simp
  show ?case
  proof (cases "2 < k")
    case False
    then have "bubble_up_min h k = Inr h"
      by (subst bubble_up_min.simps) (simp add: has_gparent_def)
    with up_done[OF ui kn] False show ?thesis by simp
  next
    case k2: True
    note f = gparent_facts[OF k2]
    from f(3,4) kn have gn: "gparent k < n" by simp
    with len have gb: "gparent k < length h" by simp
    from f(8) kmin have op: "ordered_pair h (gparent k) k = (h ! gparent k \<le> h ! k)"
      by (simp add: ordered_pair_def)
    show ?thesis
    proof (cases "h ! k < h ! gparent k")
      case False
      with k2 kb gb have "bubble_up_min h k = Inr h"
        by (subst bubble_up_min.simps) (simp add: has_gparent_def lt_ok)
      moreover from False op have "mmheap_inv h n" using up_done[OF ui kn] by simp
      ultimately show ?thesis by simp
    next
      case True
      with op have bad: "\<not> ordered_pair h (gparent k) k" by simp
      let ?h1 = "swp h k (gparent k)"
      from f(3,4) have gk: "gparent k < k" by simp
      from f(8) kmin have gmin: "on_min_level (gparent k)" by simp
      from less.IH[OF gk up_step[OF ui kn k2 bad] gn gmin]
      obtain h' where h': "bubble_up_min ?h1 (gparent k) = Inr h'" "mmheap_inv h' n"
        "length h' = length ?h1" "mset (take n h') = mset (take n ?h1)" "drop n h' = drop n ?h1"
        by blast
      from True k2 kb gb h'(1) have "bubble_up_min h k = Inr h'"
        by (subst bubble_up_min.simps) (simp add: has_gparent_def lt_ok swap_ok)
      with h' mset_take_swp[OF kn gn len] drop_swp[OF kn gn, of h] show ?thesis by simp
    qed
  qed
qed

lemma bubble_up_max_correct:
  assumes "up_inv h n k" "k < n" "\<not> on_min_level k"
  shows "\<exists>h'. bubble_up_max h k = Inr h' \<and> mmheap_inv h' n \<and> length h' = length h
            \<and> mset (take n h') = mset (take n h) \<and> drop n h' = drop n h"
  using assms
proof (induction k arbitrary: h rule: less_induct)
  case (less k)
  note ui = less.prems(1) and kn = less.prems(2) and kmax = less.prems(3)
  from ui have len: "n \<le> length h" by (simp add: up_inv_def)
  with kn have kb: "k < length h" by simp
  show ?case
  proof (cases "2 < k")
    case False
    then have "bubble_up_max h k = Inr h"
      by (subst bubble_up_max.simps) (simp add: has_gparent_def)
    with up_done[OF ui kn] False show ?thesis by simp
  next
    case k2: True
    note f = gparent_facts[OF k2]
    from f(3,4) kn have gn: "gparent k < n" by simp
    with len have gb: "gparent k < length h" by simp
    from f(8) kmax have op: "ordered_pair h (gparent k) k = (h ! k \<le> h ! gparent k)"
      by (simp add: ordered_pair_def)
    show ?thesis
    proof (cases "h ! k > h ! gparent k")
      case False
      with k2 kb gb have "bubble_up_max h k = Inr h"
        by (subst bubble_up_max.simps) (simp add: has_gparent_def gt_ok)
      moreover from False op have "mmheap_inv h n" using up_done[OF ui kn] by simp
      ultimately show ?thesis by simp
    next
      case True
      with op have bad: "\<not> ordered_pair h (gparent k) k" by simp
      let ?h1 = "swp h k (gparent k)"
      from f(3,4) have gk: "gparent k < k" by simp
      from f(8) kmax have gmax: "\<not> on_min_level (gparent k)" by simp
      from less.IH[OF gk up_step[OF ui kn k2 bad] gn gmax]
      obtain h' where h': "bubble_up_max ?h1 (gparent k) = Inr h'" "mmheap_inv h' n"
        "length h' = length ?h1" "mset (take n h') = mset (take n ?h1)" "drop n h' = drop n ?h1"
        by blast
      from True k2 kb gb h'(1) have "bubble_up_max h k = Inr h'"
        by (subst bubble_up_max.simps) (simp add: has_gparent_def gt_ok swap_ok)
      with h' mset_take_swp[OF kn gn len] drop_swp[OF kn gn, of h] show ?thesis by simp
    qed
  qed
qed

lemma new_leaf_pairs:
  assumes inv: "mmheap_inv h n" and ij: "i < Suc n" "j < Suc n" "descendant i j" "j \<noteq> n"
  shows "ordered_pair (h[n := v]) i j"
proof -
  from ij have jn: "j < n" by simp
  from descendant_less[OF ij(3)] jn have i_n: "i < n" by simp
  from inv i_n jn ij(3) have "ordered_pair h i j" by (simp add: mmheap_inv_def)
  with i_n jn show ?thesis by (simp add: ordered_pair_def)
qed

lemma leaf_stay:
  assumes inv: "mmheap_inv h n" and nb: "n < length h"
    and ok: "0 < n \<Longrightarrow> ordered_pair (h[n := v]) (parent n) n"
  shows "up_inv (h[n := v]) (Suc n) n"
proof -
  let ?h = "h[n := v]"
  have "(j = n \<and> on_min_level i = on_min_level n) \<or> ordered_pair ?h i j"
    if ij: "i < Suc n" "j < Suc n" "descendant i j" for i j
  proof (cases "j = n")
    case False
    with new_leaf_pairs[OF inv ij] show ?thesis by simp
  next
    case True
    with ij(3) have n0: "0 < n" using descendant_less by fastforce
    define p where "p = parent n"
    have pn: "p < n" using parent_less[OF n0] by (simp add: p_def)
    have lp: "on_min_level p = (\<not> on_min_level n)" using on_min_level_parent[OF n0] by (simp add: p_def)
    from ancestor_of_child[of i n] ij(3) True
    consider "i = p" | "descendant i p" by (auto simp: p_def)
    then show ?thesis
    proof cases
      case 1
      with ok[OF n0] True show ?thesis by (simp add: p_def)
    next
      case 2
      from descendant_less[OF 2] pn have i_n: "i < n" by simp
      from inv i_n pn 2 have "ordered_pair h i p" by (simp add: mmheap_inv_def)
      with i_n pn have a: "ordered_pair ?h i p" by (simp add: ordered_pair_def)
      show ?thesis
      proof (cases "on_min_level i = on_min_level n")
        case True with \<open>j = n\<close> show ?thesis by simp
      next
        case False
        with lp have "on_min_level i = on_min_level p" by auto
        with a ok[OF n0] \<open>j = n\<close> show ?thesis by (auto simp: ordered_pair_def p_def)
      qed
    qed
  qed
  with nb show ?thesis by (simp add: up_inv_def)
qed

lemma leaf_swap:
  assumes inv: "mmheap_inv h n" and nb: "n < length h" and n0: "0 < n"
    and bad: "\<not> ordered_pair (h[n := v]) (parent n) n"
  shows "up_inv (swp (h[n := v]) n (parent n)) (Suc n) (parent n)"
proof -
  define p where "p = parent n"
  have pn: "p < n" using parent_less[OF n0] by (simp add: p_def)
  have lp: "on_min_level p = (\<not> on_min_level n)" using on_min_level_parent[OF n0] by (simp add: p_def)
  from inv have pairs: "\<And>i j. i < n \<Longrightarrow> j < n \<Longrightarrow> descendant i j \<Longrightarrow> ordered_pair h i j"
    by (auto simp: mmheap_inv_def)
  let ?h = "swp (h[n := v]) n p"
  have nth: "?h ! l = (if l = p then v else if l = n then h ! p else h ! l)" if "l < Suc n" for l
    using nb pn that by (auto simp: swp_nth)
  from bad nb pn have bad': "if on_min_level p then v < h ! p else h ! p < v"
    by (auto simp: ordered_pair_def p_def)
  have "(j = p \<and> on_min_level i = on_min_level p) \<or> ordered_pair ?h i j"
    if ij: "i < Suc n" "j < Suc n" "descendant i j" for i j
  proof -
    have ilj: "i < j" using descendant_less[OF ij(3)] .
    with ij(2) have i_n: "i < n" by simp
    show ?thesis
    proof (cases "i = p")
      case True
      show ?thesis
      proof (cases "j = n")
        case jn: True
        with True bad' pn show ?thesis using nth[OF ij(1)] nth[OF ij(2)]
          by (auto simp: ordered_pair_def)
      next
        case False
        with ij(2) have jn: "j < n" by simp
        from pairs[OF pn jn] ij(3) True have "ordered_pair h p j" by simp
        moreover from ilj True False have "?h ! j = h ! j" using nth[OF ij(2)] by simp
        ultimately show ?thesis using True bad' nth[OF ij(1)]
          by (auto simp: ordered_pair_def)
      qed
    next
      case ip: False
      with i_n have hi: "?h ! i = h ! i" using nth[OF ij(1)] by simp
      consider (jp) "j = p" | (jn) "j = n" | (jo) "j \<noteq> p" "j \<noteq> n" by blast
      then show ?thesis
      proof cases
        case jp
        show ?thesis
        proof (cases "on_min_level i = on_min_level p")
          case True with jp show ?thesis by simp
        next
          case False
          from pairs[OF i_n pn] ij(3) jp have "ordered_pair h i p" by simp
          with False bad' jp hi pn show ?thesis using nth[OF ij(2)]
            by (auto simp: ordered_pair_def)
        qed
      next
        case jn
        with ij(3) ip have "descendant i p" using ancestor_of_child[of i n] by (auto simp: p_def)
        with pairs[OF i_n pn] have "ordered_pair h i p" by simp
        with jn hi pn show ?thesis using nth[OF ij(2)] by (simp add: ordered_pair_def)
      next
        case jo
        with ij(2) have "j < n" by simp
        from pairs[OF i_n this ij(3)] jo hi show ?thesis using nth[OF ij(2)]
          by (simp add: ordered_pair_def)
      qed
    qed
  qed
  with nb show ?thesis by (simp add: up_inv_def p_def)
qed

lemma bubble_up_correct:
  assumes inv: "mmheap_inv h n" and nb: "n < length h" and small: "n + 1 < 2 ^ 64"
  shows "\<exists>h'. bubble_up (h[n := v]) n = Inr h' \<and> mmheap_inv h' (Suc n) \<and> length h' = length h
            \<and> mset (take (Suc n) h') = add_mset v (mset (take n h))
            \<and> drop (Suc n) h' = drop (Suc n) h"
proof -
  let ?h1 = "h[n := v]"
  define p where "p = parent n"
  have ml: "min_level n = on_min_level n" using min_level_is_level_parity[OF small] .
  have "p \<le> n" by (simp add: p_def parent_def)
  with nb have pb: "p < length ?h1" and nb1: "n < length ?h1" by simp_all
  have t: "mset (take (Suc n) ?h1) = add_mset v (mset (take n h))"
    using nb by (simp add: take_Suc_conv_app_nth)
  have d: "drop (Suc n) ?h1 = drop (Suc n) h" by simp
  have len1: "Suc n \<le> length ?h1" using nb by simp
  have goal: "\<exists>h'. r = Inr h' \<and> mmheap_inv h' (Suc n) \<and> length h' = length h
            \<and> mset (take (Suc n) h') = add_mset v (mset (take n h))
            \<and> drop (Suc n) h' = drop (Suc n) h"
    if "\<exists>h'. r = Inr h' \<and> mmheap_inv h' (Suc n) \<and> length h' = length ?h1
            \<and> mset (take (Suc n) h') = mset (take (Suc n) ?h1)
            \<and> drop (Suc n) h' = drop (Suc n) ?h1" for r
    using that t d by auto
  have goal2: "\<exists>h'. r = Inr h' \<and> mmheap_inv h' (Suc n) \<and> length h' = length h
            \<and> mset (take (Suc n) h') = add_mset v (mset (take n h))
            \<and> drop (Suc n) h' = drop (Suc n) h"
    if "0 < n" "\<exists>h'. r = Inr h' \<and> mmheap_inv h' (Suc n) \<and> length h' = length (swp ?h1 n p)
            \<and> mset (take (Suc n) h') = mset (take (Suc n) (swp ?h1 n p))
            \<and> drop (Suc n) h' = drop (Suc n) (swp ?h1 n p)" for r
  proof -
    have "p < n" using parent_less[OF that(1)] by (simp add: p_def)
    then have "mset (take (Suc n) (swp ?h1 n p)) = mset (take (Suc n) ?h1)"
      "drop (Suc n) (swp ?h1 n p) = drop (Suc n) ?h1"
      using mset_take_swp[of n "Suc n" p ?h1] drop_swp[of n "Suc n" p ?h1] len1 by simp_all
    with that(2) t d show ?thesis by auto
  qed
  show ?thesis
  proof (cases "n = 0")
    case True
    then have "bubble_up ?h1 n = bubble_up_min ?h1 n"
      by (simp add: bubble_up_def has_parent_def)
    moreover have "up_inv ?h1 (Suc n) n" using leaf_stay[OF inv nb] True by simp
    from bubble_up_min_correct[OF this] True
    have "\<exists>h'. bubble_up_min ?h1 n = Inr h' \<and> mmheap_inv h' (Suc n) \<and> length h' = length ?h1
            \<and> mset (take (Suc n) h') = mset (take (Suc n) ?h1)
            \<and> drop (Suc n) h' = drop (Suc n) ?h1" by simp
    ultimately show ?thesis using goal by simp
  next
    case False
    then have n0: "0 < n" by simp
    have pn: "p < n" using parent_less[OF n0] by (simp add: p_def)
    have lp: "on_min_level p = (\<not> on_min_level n)"
      using on_min_level_parent[OF n0] by (simp add: p_def)
    have op: "ordered_pair ?h1 p n = (if on_min_level n then ?h1 ! n \<le> ?h1 ! p else ?h1 ! p \<le> ?h1 ! n)"
      using lp by (simp add: ordered_pair_def)
    show ?thesis
    proof (cases "ordered_pair ?h1 p n")
      case True
      from leaf_stay[OF inv nb] True have ui: "up_inv ?h1 (Suc n) n" by (simp add: p_def)
      show ?thesis
      proof (cases "on_min_level n")
        case mn: True
        with True op n0 nb1 pb ml have "bubble_up ?h1 n = bubble_up_min ?h1 n"
          by (simp add: bubble_up_def has_parent_def gt_ok p_def)
        with bubble_up_min_correct[OF ui _ mn] goal show ?thesis by simp
      next
        case mx: False
        with True op n0 nb1 pb ml have "bubble_up ?h1 n = bubble_up_max ?h1 n"
          by (simp add: bubble_up_def has_parent_def lt_ok p_def)
        with bubble_up_max_correct[OF ui _ mx] goal show ?thesis by simp
      qed
    next
      case bad: False
      from leaf_swap[OF inv nb n0] bad have ui: "up_inv (swp ?h1 n p) (Suc n) p" by (simp add: p_def)
      from pn have pS: "p < Suc n" by simp
      show ?thesis
      proof (cases "on_min_level n")
        case mn: True
        with lp have pmax: "\<not> on_min_level p" by simp
        from bad op mn n0 nb1 pb ml
        have "bubble_up ?h1 n = bubble_up_max (swp ?h1 n p) p"
          by (simp add: bubble_up_def has_parent_def gt_ok swap_ok p_def)
        with bubble_up_max_correct[OF ui pS pmax] goal2[OF n0] show ?thesis by simp
      next
        case mx: False
        with lp have pmin: "on_min_level p" by simp
        from bad op mx n0 nb1 pb ml
        have "bubble_up ?h1 n = bubble_up_min (swp ?h1 n p) p"
          by (simp add: bubble_up_def has_parent_def lt_ok swap_ok p_def)
        with bubble_up_min_correct[OF ui pS pmin] goal2[OF n0] show ?thesis by simp
      qed
    qed
  qed
qed

lemma mm_heap_add_correct:
  assumes "mmheap_inv h n" "n < cap" "cap \<le> length h" "cap < 2 ^ 64"
  shows "\<exists>h'. mm_heap_add v h n cap = Inr (h', n + 1) \<and> length h' = length h
            \<and> mmheap_inv h' (n + 1)
            \<and> mset (take (n + 1) h') = add_mset v (mset (take n h))
            \<and> drop (n + 1) h' = drop (n + 1) h"
proof -
  from assms have nb: "n < length h" and small: "n + 1 < 2 ^ 64" by simp_all
  from bubble_up_correct[OF assms(1) nb small, of v] assms(2) nb show ?thesis
    by (auto simp: mm_heap_add_def wr_ok)
qed

section \<open>Adding to a heap, full or not\<close>

lemma sift_down_max_perm:
  assumes "r < length h"
  shows "\<exists>h'. mmheap_sift_down_max h k r = Inr h' \<and> length h' = length h
            \<and> mset (take (Suc r) h') = mset (take (Suc r) h)
            \<and> drop (Suc r) h' = drop (Suc r) h"
  using assms
proof (induction "Suc r - k" arbitrary: h k rule: less_induct)
  case less
  note rb = less.prems
  show ?case
  proof (cases "left k \<le> r")
    case False
    then have "mmheap_sift_down_max h k r = Inr h"
      by (subst mmheap_sift_down_max.simps) simp
    then show ?thesis by simp
  next
    case True
    let ?m = "sel_max h k r"
    from True have k1: "2 * k + 1 \<le> r" by (simp add: left_def)
    from sel_max_props(1)[OF k1, of h] have mr: "?m < Suc r" by simp
    note mset = sel_max_props(2)[OF k1, of h]
    from mset have km: "k < ?m" by auto
    with mr have kr: "k < Suc r" by simp
    have "parent ?m \<le> ?m" by (simp add: parent_def)
    with mr have pr: "parent ?m < Suc r" by simp
    from rb have len: "Suc r \<le> length h" by simp
    note unf = sift_down_max_unfold[OF True rb]
    let ?h1 = "swp h ?m k"
    have p1: "mset (take (Suc r) ?h1) = mset (take (Suc r) h)" "drop (Suc r) ?h1 = drop (Suc r) h"
      using mset_take_swp[OF mr kr len] drop_swp[OF mr kr] by simp_all
    show ?thesis
    proof (cases "child k ?m \<or> \<not> h ! ?m > h ! k")
      case True
      then have "mmheap_sift_down_max h k r = Inr h \<or> mmheap_sift_down_max h k r = Inr ?h1"
        by (subst unf, subst unf) auto
      with p1 show ?thesis by auto
    next
      case False
      let ?h2 = "if ?h1 ! ?m < ?h1 ! parent ?m then swp ?h1 ?m (parent ?m) else ?h1"
      have len1: "Suc r \<le> length ?h1" using len by simp
      have p2: "mset (take (Suc r) ?h2) = mset (take (Suc r) h)" "drop (Suc r) ?h2 = drop (Suc r) h"
        "length ?h2 = length h"
        using p1 mset_take_swp[OF mr pr len1] drop_swp[OF mr pr, of ?h1] by simp_all
      from km mr have "Suc r - ?m < Suc r - k" by simp
      moreover have "r < length ?h2" using rb by simp
      ultimately obtain h' where h': "mmheap_sift_down_max ?h2 ?m r = Inr h'"
        "length h' = length ?h2" "mset (take (Suc r) h') = mset (take (Suc r) ?h2)"
        "drop (Suc r) h' = drop (Suc r) ?h2"
        using less.hyps[of ?m ?h2] by blast
      moreover from False
      have "mmheap_sift_down_max h k r = mmheap_sift_down_max ?h2 ?m r"
        by (subst unf) simp
      ultimately show ?thesis using p2 by simp
    qed
  qed
qed

lemma ripple_add_full:
  assumes inv: "mmheap_inv h n" and n: "1 \<le> n"
  shows "\<exists>h'. mm_heap_ripple_add v h n n = Inr ((True, Max (set (take n h))), h', n)
            \<and> mmheap_inv h' n \<and> length h' = length h
            \<and> mset (take n h') = add_mset v (mset (take n h) - {#Max (set (take n h))#})
            \<and> drop n h' = drop n h"
proof (cases "n = 1")
  case True
  from inv have len: "n \<le> length h" by (simp add: mmheap_inv_def)
  with True have t: "take 1 h = [h ! 0]" and b0: "0 < length h" by (cases h; simp)+
  from b0 have t': "take 1 (h[0 := v]) = [v]" by (cases h) simp_all
  from b0 have "mmheap_inv (h[0 := v]) 1" by (intro mmheap_inv_single) simp
  with True t t' b0 show ?thesis
    by (simp add: mm_heap_ripple_add_def rd_ok wr_ok)
next
  case False
  with n have n2: "2 \<le> n" by simp
  from inv have len: "n \<le> length h" by (simp add: mmheap_inv_def)
  let ?m = "pick_gt h (n - 1) 2 1"
  from n2 have "?m \<le> n - 1" by (simp add: pick_gt_le)
  with n2 have mn: "?m < n" by simp
  have m12: "?m = 1 \<or> ?m = 2" using pick_gt_cases[of h "n - 1" 2 1] by auto
  from n2 len have rb: "n - 1 < length h" by simp
  have "left 0 \<le> n - 1" using n2 by (simp add: left_def)
  from max_child_ok[OF this rb] have mc: "max_child h 0 (n - 1) = Inr (True, ?m)"
    by (simp add: numeral_2_eq_2)
  let ?h1 = "h[?m := v]"
  let ?h2 = "if v < h ! 0 then swp ?h1 0 ?m else ?h1"
  have hole: "hole_inv ?h2 n ?m" using replace_max_hole[OF inv mn m12] .
  from m12 have mmax: "\<not> on_min_level ?m" using level_one_max by auto
  from sift_down_max_correct[OF hole mn mmax]
  obtain h' where h': "mmheap_sift_down_max ?h2 ?m (n - 1) = Inr h'" "mmheap_inv h' n" by blast
  from m12 have ml: "\<not> min_level ?m" using min_level_1_2 by auto
  from mn len have mb: "?m < length h" by simp
  from n2 len have b0: "0 < length h" by linarith
  from m12 have mne: "?m \<noteq> 0" by auto
  from n2 have n1: "1 < n" by simp
  from mne have m0: "0 < ?m" by simp
  have run: "mm_heap_ripple_add v h n n = Inr ((True, h ! ?m), h', n)"
    using ripple_add_full_unfold[OF n1 mc mb m0 ml h'(1)] .
  have e: "Suc (n - 1) = n" using n2 by simp
  have "n - 1 < length ?h2" using rb by simp
  from sift_down_max_perm[OF this, of ?m, unfolded e] h'(1)
  have p: "length h' = length ?h2" "mset (take n h') = mset (take n ?h2)"
    "drop n h' = drop n ?h2"
    by auto
  have len1: "n \<le> length ?h1" using len by simp
  from n2 have n0: "0 < n" by simp
  have s2: "mset (take n ?h2) = mset (take n ?h1)" "drop n ?h2 = drop n ?h1"
    using mset_take_swp[OF n0 mn len1] drop_swp[OF n0 mn, of ?h1] by simp_all
  have "take n ?h1 = (take n h)[?m := v]" by (simp add: take_update_swap)
  moreover have "?m < length (take n h)" using mn len by simp
  ultimately have s1: "mset (take n ?h1) = add_mset v (mset (take n h) - {#take n h ! ?m#})"
    by (simp add: mset_update)
  have tm: "take n h ! ?m = h ! ?m" using mn by simp
  have d1: "drop n ?h1 = drop n h" using mn by simp
  have mx: "Max (set (take n h)) = h ! ?m" using heap_max_at_first_level[OF inv n2] .
  from run h'(2) p s2 s1 tm d1 mx show ?thesis by simp
qed



section \<open>The scenarios of the specification\<close>

fun insert_all :: "(nat \<Rightarrow> int) \<Rightarrow> int list \<Rightarrow> HeapArray \<Rightarrow> HeapArray res" where
  "insert_all junk [] h = Inr h"
| "insert_all junk (v # vs) h = bindE (insert_ha junk v h) (insert_all junk vs)"

lemma run_pi:
  "insert_all zero_junk [3, 1, 4, 1, 5, 9, 2, 6, 5, 3, 5] HeapArray_default =
     Inr \<lparr>storage = 25, count = 11, fixed = False,
          a = [1, 1, 2, 3, 3, 5, 5, 4, 5, 6, 9, 0, 0, 0, 0, 0, 0, 0, 0, 0, 0, 0, 0, 0, 0]\<rparr>"
  by code_simp

lemma run_pi_reads:
  "min_ha \<lparr>storage = 25, count = 11, fixed = False,
          a = [1, 1, 2, 3, 3, 5, 5, 4, 5, 6, 9, 0, 0, 0, 0, 0, 0, 0, 0, 0, 0, 0, 0, 0, 0]\<rparr> = Inr 1"
  "max_ha \<lparr>storage = 25, count = 11, fixed = False,
          a = [1, 1, 2, 3, 3, 5, 5, 4, 5, 6, 9, 0, 0, 0, 0, 0, 0, 0, 0, 0, 0, 0, 0, 0, 0]\<rparr> = Inr 9"
  "contains \<lparr>storage = 25, count = 11, fixed = False,
          a = [1, 1, 2, 3, 3, 5, 5, 4, 5, 6, 9, 0, 0, 0, 0, 0, 0, 0, 0, 0, 0, 0, 0, 0, 0]\<rparr> 4 = Inr True"
  by code_simp+

lemma run_pi_contains_7:
  "contains \<lparr>storage = 25, count = 11, fixed = False,
          a = [1, 1, 2, 3, 3, 5, 5, 4, 5, 6, 9, x, 0, 0, 0, 0, 0, 0, 0, 0, 0, 0, 0, 0, 0]\<rparr> 7
     = Inr (x = 7)"
  by (simp add: ha_eval heap_eval Let_def)

text \<open>
  Scenario S1: after the inserts of 3, 1, 4, 1, 5, 9, 2, 6, 5, 3, 5 into the empty
  container (with fresh memory that holds zeros) the size is 11, the minimum 1, the
  maximum 9, 4 is found and 7 is not. That 7 is not found rests on the content of the
  dead slot 11 (see C10): with a 7 there, \<^verbatim>\<open>contains(7)\<close> is true.
\<close>

theorem scenario_small_insert_sequence:
  "\<exists>h. insert_all zero_junk [3, 1, 4, 1, 5, 9, 2, 6, 5, 3, 5] HeapArray_default = Inr h
       \<and> size_ha h = 11 \<and> min_ha h = Inr 1 \<and> max_ha h = Inr 9
       \<and> contains h 4 = Inr True \<and> contains h 7 = Inr False
       \<and> contains (h\<lparr>a := (a h)[11 := 7]\<rparr>) 7 = Inr True"
  using run_pi run_pi_reads run_pi_contains_7[of 0] run_pi_contains_7[of 7]
  by (simp add: size_ha_def)

lemma run_range_8:
  "HeapArray_range zero_junk [8, 2, 5, 7, 1, 4, 3, 6, 0] None True =
     Inr \<lparr>storage = 9, count = 9, fixed = False, a = [0, 1, 2, 3, 4, 8, 6, 7, 5]\<rparr>"
  by code_simp

lemma run_range_8_reads:
  "min_ha \<lparr>storage = 9, count = 9, fixed = False, a = [0, 1, 2, 3, 4, 8, 6, 7, 5]\<rparr> = Inr 0"
  "max_ha \<lparr>storage = 9, count = 9, fixed = False, a = [0, 1, 2, 3, 4, 8, 6, 7, 5]\<rparr> = Inr 8"
  "final_partition \<lparr>storage = 9, count = 9, fixed = False, a = [0, 1, 2, 3, 4, 8, 6, 7, 5]\<rparr> = 2"
  "mmheap_inv [0] 1" "mmheap_inv [1, 2, 3] 3" "mmheap_inv [4, 8, 6, 7, 5] 5"
  by code_simp+

lemma run_range_8_remove_42:
  "remove_ha 42 \<lparr>storage = 9, count = 9, fixed = False, a = [0, 1, 2, 3, 4, 8, 6, 7, 5]\<rparr> =
     Inr (False, \<lparr>storage = 9, count = 9, fixed = False, a = [0, 1, 2, 3, 4, 8, 6, 7, 5]\<rparr>)"
  by (simp add: ha_eval heap_eval Let_def)

text \<open>
  Scenarios S3 and S5: the container built from 8, 2, 5, 7, 1, 4, 3, 6, 0 has size 9,
  storage 9, minimum 0 and maximum 8; its three partitions \<open>0\<close>, \<open>1 2 3\<close> and
  \<open>4 8 6 7 5\<close> are min-max heaps and are full, and each maximum is at most the first
  element of the next partition. Removing the absent 42 returns false and changes
  nothing.
\<close>

theorem scenario_bulk_build:
  "\<exists>h. HeapArray_range zero_junk [8, 2, 5, 7, 1, 4, 3, 6, 0] None True = Inr h
       \<and> size_ha h = 9 \<and> storage h = 9 \<and> min_ha h = Inr 0 \<and> max_ha h = Inr 8
       \<and> final_partition h = 2
       \<and> part_ptr h 0 = [0, 1, 2, 3, 4, 8, 6, 7, 5] \<and> count_in_partition h 0 = 1
       \<and> mmheap_inv (part_ptr h 0) 1
       \<and> part_ptr h 1 = [1, 2, 3, 4, 8, 6, 7, 5] \<and> count_in_partition h 1 = 3
       \<and> mmheap_inv (part_ptr h 1) 3
       \<and> part_ptr h 2 = [4, 8, 6, 7, 5] \<and> count_in_partition h 2 = 5
       \<and> mmheap_inv (part_ptr h 2) 5
       \<and> max_in_partition h 0 = Inr 0 \<and> max_in_partition h 1 = Inr 3
       \<and> remove_ha 42 h = Inr (False, h)"
proof -
  let ?h = "\<lparr>storage = 9, count = 9, fixed = False, a = [0, 1, 2, 3, 4, 8, 6, 7, 5]\<rparr>"
  have "part_ptr ?h 0 = [0, 1, 2, 3, 4, 8, 6, 7, 5]" "count_in_partition ?h 0 = 1"
    "part_ptr ?h 1 = [1, 2, 3, 4, 8, 6, 7, 5]" "count_in_partition ?h 1 = 3"
    "part_ptr ?h 2 = [4, 8, 6, 7, 5]" "count_in_partition ?h 2 = 5"
    "max_in_partition ?h 0 = Inr 0" "max_in_partition ?h 1 = Inr 3"
    "mmheap_inv [0, 1, 2, 3, 4, 8, 6, 7, 5] 1" "mmheap_inv [1, 2, 3, 4, 8, 6, 7, 5] 3"
    by code_simp+
  with run_range_8 run_range_8_reads run_range_8_remove_42 show ?thesis
    by (simp add: size_ha_def)
qed

theorem scenario_bulk_build_witness:
  "\<exists>h. HeapArray_range zero_junk [8, 2, 5, 7, 1, 4, 3, 6, 0] None True = Inr h
       \<and> mmheap_inv (part_ptr h 0) 1 \<and> mmheap_inv (part_ptr h 1) 3
       \<and> mmheap_inv (part_ptr h 2) 5"
  using scenario_bulk_build by blast

lemma run_range_0_8:
  "HeapArray_range zero_junk [0, 1, 2, 3, 4, 5, 6, 7, 8] None True =
     Inr \<lparr>storage = 9, count = 9, fixed = False, a = [0, 1, 2, 3, 4, 8, 6, 7, 5]\<rparr>"
  by code_simp

lemma run_range_0_8_remove_0:
  "remove_ha 0 \<lparr>storage = 9, count = 9, fixed = False, a = [0, 1, 2, 3, 4, 8, 6, 7, 5]\<rparr> =
     Inr (True, \<lparr>storage = 9, count = 8, fixed = False, a = [1, 2, 4, 3, 5, 8, 6, 7, 4]\<rparr>)"
  by code_simp

text \<open>
  Scenario S4: the container built from 0 to 8, after \<^verbatim>\<open>remove(0)\<close>, has size 8, minimum
  1 and maximum 8; the minimum 4 of the last partition has rippled back through
  partition 1 into partition 0, the partitions \<open>1\<close>, \<open>2 4 3\<close> and \<open>5 8 6 7\<close> are min-max
  heaps, and each maximum is at most the first element of the next partition.
\<close>

theorem scenario_delete_ripple:
  "\<exists>h0 h. HeapArray_range zero_junk [0, 1, 2, 3, 4, 5, 6, 7, 8] None True = Inr h0
       \<and> remove_ha 0 h0 = Inr (True, h)
       \<and> size_ha h = 8 \<and> min_ha h = Inr 1 \<and> max_ha h = Inr 8
       \<and> final_partition h = 2
       \<and> count_in_partition h 0 = 1 \<and> mmheap_inv (part_ptr h 0) 1
       \<and> count_in_partition h 1 = 3 \<and> mmheap_inv (part_ptr h 1) 3
       \<and> count_in_partition h 2 = 4 \<and> mmheap_inv (part_ptr h 2) 4
       \<and> max_in_partition h 0 = Inr 1 \<and> rd (a h) (partition_start 1) = Inr 2
       \<and> max_in_partition h 1 = Inr 4 \<and> rd (a h) (partition_start 2) = Inr 5"
proof -
  let ?h = "\<lparr>storage = 9, count = 8, fixed = False, a = [1, 2, 4, 3, 5, 8, 6, 7, 4]\<rparr>"
  have "size_ha ?h = 8" "min_ha ?h = Inr 1" "max_ha ?h = Inr 8" "final_partition ?h = 2"
    "count_in_partition ?h 0 = 1" "mmheap_inv (part_ptr ?h 0) 1"
    "count_in_partition ?h 1 = 3" "mmheap_inv (part_ptr ?h 1) 3"
    "count_in_partition ?h 2 = 4" "mmheap_inv (part_ptr ?h 2) 4"
    "max_in_partition ?h 0 = Inr 1" "rd (a ?h) (partition_start 1) = Inr 2"
    "max_in_partition ?h 1 = Inr 4" "rd (a ?h) (partition_start 2) = Inr 5"
    by code_simp+
  with run_range_0_8 run_range_0_8_remove_0 show ?thesis by blast
qed

theorem scenario_delete_ripple_witness:
  "\<exists>h0 h. HeapArray_range zero_junk [0, 1, 2, 3, 4, 5, 6, 7, 8] None True = Inr h0
       \<and> remove_ha 0 h0 = Inr (True, h)
       \<and> mmheap_inv (part_ptr h 0) 1 \<and> mmheap_inv (part_ptr h 1) 3
       \<and> mmheap_inv (part_ptr h 2) 4"
  using scenario_delete_ripple by blast

fun insert_trace :: "(nat \<Rightarrow> int) \<Rightarrow> int list \<Rightarrow> HeapArray \<Rightarrow> (nat \<times> nat) list res" where
  "insert_trace junk [] h = Inr []"
| "insert_trace junk (v # vs) h =
     bindE (insert_ha junk v h) (\<lambda>h'.
     bindE (insert_trace junk vs h') (\<lambda>t. Inr ((storage h', count h') # t)))"

lemma run_growth:
  "insert_all zero_junk [0, 1, 2, 3, 4, 5, 6, 7, 8, 9, 10, 11, 12, 13, 14, 15, 16]
     HeapArray_default =
     Inr \<lparr>storage = 25, count = 17, fixed = False,
          a = [1, 0, 2, 4, 3, 9, 6, 5, 7, 8, 13, 16, 10, 12, 11, 14, 15,
               0, 0, 0, 0, 0, 0, 0, 0]\<rparr>"
  by code_simp

lemma run_growth_trace:
  "insert_trace zero_junk [0, 1, 2, 3, 4, 5, 6, 7, 8, 9, 10, 11, 12, 13, 14, 15, 16]
     HeapArray_default =
     Inr [(4, 1), (4, 2), (4, 3), (4, 4), (9, 5), (9, 6), (9, 7), (9, 8), (9, 9),
          (25, 10), (25, 11), (25, 12), (25, 13), (25, 14), (25, 15), (25, 16), (25, 17)]"
  by code_simp

text \<open>
  Scenario S6: during the inserts of 0 to 16 into the empty container the storage is
  4 = 2 * 2 up to the fourth insert, 9 = 3 * 3 up to the ninth and 25 = 5 * 5 from the
  tenth on, so after each step a perfect square that is at least the count; at the
  end the storage is 25 and the count 17.
\<close>

theorem scenario_growth:
  "insert_trace zero_junk [0, 1, 2, 3, 4, 5, 6, 7, 8, 9, 10, 11, 12, 13, 14, 15, 16]
     HeapArray_default =
     Inr [(2 * 2, 1), (2 * 2, 2), (2 * 2, 3), (2 * 2, 4),
          (3 * 3, 5), (3 * 3, 6), (3 * 3, 7), (3 * 3, 8), (3 * 3, 9),
          (5 * 5, 10), (5 * 5, 11), (5 * 5, 12), (5 * 5, 13), (5 * 5, 14), (5 * 5, 15),
          (5 * 5, 16), (5 * 5, 17)]
   \<and> (\<exists>h. insert_all zero_junk [0, 1, 2, 3, 4, 5, 6, 7, 8, 9, 10, 11, 12, 13, 14, 15, 16]
          HeapArray_default = Inr h \<and> storage h = 25 \<and> size_ha h = 17)"
  using run_growth run_growth_trace by (simp add: size_ha_def)

end
